theory Spec2Isabelle
  imports Complex_Main
begin

section \<open>Numbers and errors\<close>

text \<open>
  The library's \<open>real\<close> is a binary floating-point type. It is embedded here as the
  mathematical reals together with one extra value \<open>NaN\<close>: arithmetic on finite values
  is exact, there are no infinities, and \<open>NaN\<close> is the "no result" marker the code
  passes around. Every comparison with \<open>NaN\<close> is false, as in IEEE arithmetic.
\<close>

datatype fl = NaN | Fin real

fun isnan :: "fl \<Rightarrow> bool" where
  "isnan NaN = True"
| "isnan (Fin x) = False"

text \<open>\<open>abs(v) > b\<close> on a floating-point value: false for \<open>NaN\<close>.\<close>

fun abs_gt :: "fl \<Rightarrow> real \<Rightarrow> bool" where
  "abs_gt NaN b = False"
| "abs_gt (Fin x) b = (\<bar>x\<bar> > b)"

text \<open>
  \<open>GeographicErr\<close> is the only exception class of the library. The two places it is
  thrown from are kept apart: \<open>RangeError\<close> is the latitude check of \<open>Georef::Forward\<close>
  (the message embeds the latitude), \<open>FormatError\<close> is every \<open>throw\<close> of
  \<open>Georef::Reverse\<close>, carrying the message text built by the source. \<open>IndexError\<close>
  is not an exception: it marks a read of a \<open>std::string\<close> outside \<open>[0, size()]\<close>,
  \<open>BufferError\<close> a write outside the stack buffer and \<open>UninitError\<close> a read of a
  buffer cell never written; all three are undefined behaviour in C++.
\<close>

datatype error =
    RangeError fl
  | FormatError string
  | IndexError string int
  | BufferError int
  | UninitError nat

definition ebind :: "error + 'a \<Rightarrow> ('a \<Rightarrow> error + 'b) \<Rightarrow> error + 'b" where
  "ebind r f = (case r of Inl e \<Rightarrow> Inl e | Inr v \<Rightarrow> f v)"

text \<open>C++ integer division and remainder truncate towards zero.\<close>

definition cdiv :: "int \<Rightarrow> int \<Rightarrow> int" where
  "cdiv a b = sgn a * sgn b * (\<bar>a\<bar> div \<bar>b\<bar>)"

definition crem :: "int \<Rightarrow> int \<Rightarrow> int" where
  "crem a b = a - b * cdiv a b"

text \<open>
  \<open>s[i]\<close> on a \<open>const std::string\<close> with an \<open>int\<close> index: defined for
  \<open>0 \<le> i \<le> size()\<close> (the position \<open>size()\<close> holds the terminating zero character),
  undefined elsewhere; a negative \<open>int\<close> converts to a huge \<open>size_t\<close>.
\<close>

definition str_at :: "string \<Rightarrow> int \<Rightarrow> error + char" where
  "str_at s i =
     (if 0 \<le> i \<and> i < int (length s) then Inr (s ! nat i)
      else if i = int (length s) then Inr (CHR 0x00)
      else Inl (IndexError s i))"

text \<open>\<open>toupper\<close> in the C locale.\<close>

definition toupper :: "char \<Rightarrow> char" where
  "toupper c =
     (let n = (of_char c :: nat)
      in if 97 \<le> n \<and> n \<le> 122 then char_of (n - 32) else c)"

section \<open>Georef: constants of the class\<close>

text \<open>
  The private constants of the class end in an underscore in the source (\<open>tile_\<close>,
  \<open>digits_\<close>, ...); a name cannot end so here, and each carries the suffix \<open>_c\<close>.
\<close>

definition digits_c :: string where "digits_c = ''0123456789''"
definition lontile_c :: string where "lontile_c = ''ABCDEFGHJKLMNPQRSTUVWXYZ''"
definition lattile_c :: string where "lattile_c = ''ABCDEFGHJKLM''"
definition degrees_c :: string where "degrees_c = ''ABCDEFGHJKLMNPQ''"

definition tile_c :: int where "tile_c = 15"
definition maxlat_c :: int where "maxlat_c = 89"
definition lonorig_c :: int where "lonorig_c = cdiv (-180) tile_c"
definition latorig_c :: int where "latorig_c = cdiv (-90) tile_c"
definition base_c :: int where "base_c = 10"
definition baselen_c :: int where "baselen_c = 4"
definition maxprec_c :: int where "maxprec_c = 5 + 6"
definition mult2_c :: int where "mult2_c = 60"
definition maxlen_c :: int where "maxlen_c = baselen_c + 2 * maxprec_c"

text \<open>\<open>numeric_limits<real>::epsilon()\<close> for \<open>double\<close>.\<close>

definition epsilon :: real where "epsilon = 1 / 2 ^ 52"

text \<open>
  Modelled from the spec: \<open>Math::AngNormalize\<close> is declared in \<open>Math.hpp\<close>, which is not
  among the sources. The spec and the comment at the call say that it brings the longitude
  into \<open>[-180, 180)\<close>; it is taken to do so by adding a multiple of 360.
\<close>

definition AngNormalize :: "real \<Rightarrow> real" where
  "AngNormalize x = x - 360 * of_int \<lfloor>(x + 180) / 360\<rfloor>"

text \<open>
  Modelled from the spec: \<open>Utility::lookup\<close> is declared in \<open>Utility.hpp\<close>, which is not
  among the sources. The spec says that letters are read case-insensitively and that an
  unknown letter is rejected; the callers test the result for \<open>< 0\<close>. It is taken to
  return the position of the upper-cased character in the table, or \<open>-1\<close>.
\<close>

fun find_index_from :: "char \<Rightarrow> string \<Rightarrow> int \<Rightarrow> int" where
  "find_index_from c [] i = -1"
| "find_index_from c (x # xs) i = (if x = c then i else find_index_from c xs (i + 1))"

definition lookup :: "string \<Rightarrow> char \<Rightarrow> int" where
  "lookup s c = find_index_from (toupper c) s 0"

section \<open>Georef::Forward\<close>

text \<open>
  The stack buffer \<open>char georef1[maxlen_]\<close>: \<open>maxlen_c\<close> cells, none initialised.
\<close>

type_synonym buffer = "char option list"

definition new_buffer :: buffer where
  "new_buffer = replicate (nat maxlen_c) None"

definition buf_write :: "buffer \<Rightarrow> int \<Rightarrow> char \<Rightarrow> error + buffer" where
  "buf_write b i c =
     (if 0 \<le> i \<and> i < int (length b) then Inr (b[nat i := Some c])
      else Inl (BufferError i))"

text \<open>
  \<open>georef.resize(n); copy(georef1, georef1 + n, georef.begin())\<close>: the first \<open>n\<close>
  cells, each of which must have been written.
\<close>

fun read_cells :: "char option list \<Rightarrow> nat \<Rightarrow> error + string" where
  "read_cells [] i = Inr []"
| "read_cells (None # cs) i = Inl (UninitError i)"
| "read_cells (Some c # cs) i = ebind (read_cells cs (Suc i)) (\<lambda>s. Inr (c # s))"

definition buf_copy :: "buffer \<Rightarrow> int \<Rightarrow> error + string" where
  "buf_copy b n =
     (if 0 \<le> n \<and> n \<le> int (length b) then read_cells (take (nat n) b) 0
      else Inl (BufferError n))"

text \<open>
  The loop \<open>for (int c = prec; c--;)\<close>: the first argument is the value of \<open>c\<close> when
  the condition is tested. \<open>x\<close> and \<open>y\<close> are \<open>unsigned long long\<close>; they are at most
  \<open>60 * 10^9\<close> and only divided, so they are naturals here.
\<close>

fun digit_loop :: "nat \<Rightarrow> int \<Rightarrow> nat \<Rightarrow> nat \<Rightarrow> buffer \<Rightarrow> error + buffer" where
  "digit_loop 0 prec x y b = Inr b"
| "digit_loop (Suc c) prec x y b =
     ebind (str_at digits_c (int (x mod nat base_c))) (\<lambda>dx.
     ebind (buf_write b (baselen_c + int c) dx) (\<lambda>b1.
     ebind (str_at digits_c (int (y mod nat base_c))) (\<lambda>dy.
     ebind (buf_write b1 (baselen_c + int c + prec) dy) (\<lambda>b2.
     digit_loop c prec (x div nat base_c) (y div nat base_c) b2))))"

text \<open>\<open>prec = max(-1, min(int(maxprec_), prec)); if (prec == 1) ++prec;\<close>\<close>

definition clamp_prec :: "int \<Rightarrow> int" where
  "clamp_prec prec =
     (let p = max (-1) (min maxprec_c prec) in if p = 1 then p + 1 else p)"

text \<open>
  The part of \<open>Forward\<close> from the declaration of the buffer to the end, as a function
  of the locals it reads: \<open>ilon\<close>, \<open>ilat\<close>, the clamped \<open>prec\<close>, and the residues
  \<open>lon\<close> and \<open>lat\<close> left after \<open>lon -= ilon\<close> and \<open>lat -= ilat\<close>.
\<close>

definition Forward_buffer :: "int \<Rightarrow> int \<Rightarrow> int \<Rightarrow> real \<Rightarrow> real \<Rightarrow> error + string" where
  "Forward_buffer ilon ilat prec lon2 lat2 =
     ebind (str_at lontile_c (cdiv ilon tile_c - lonorig_c)) (\<lambda>c0.
     ebind (buf_write new_buffer 0 c0) (\<lambda>b0.
     ebind (str_at lattile_c (cdiv ilat tile_c - latorig_c)) (\<lambda>c1.
     ebind (buf_write b0 1 c1) (\<lambda>b1.
     ebind
       (if prec \<ge> 0 then
          ebind (str_at degrees_c (crem ilon tile_c)) (\<lambda>c2.
          ebind (buf_write b1 2 c2) (\<lambda>b2.
          ebind (str_at degrees_c (crem ilat tile_c)) (\<lambda>c3.
          ebind (buf_write b2 3 c3) (\<lambda>b3.
            if prec > 0 then
              (let lon3 = (if lon2 = 1 then lon2 - epsilon / 2 else lon2);
                   lat3 = (if lat2 = 1 then lat2 - epsilon / 2 else lat2);
                   mult = of_int base_c ^ nat (prec - 2) * of_int mult2_c;
                   x = nat \<lfloor>mult * lon3\<rfloor>;
                   y = nat \<lfloor>mult * lat3\<rfloor>
               in digit_loop (nat prec) prec x y b3)
            else Inr b3))))
        else Inr b1)
       (\<lambda>b. buf_copy b (baselen_c + 2 * prec))))))"

text \<open>
  \<open>Forward\<close> after the two guards, on finite coordinates: the normalisation of the
  longitude, the clamp of the precision, and the split of each coordinate into its whole
  degrees (\<open>ilon\<close>, \<open>ilat\<close>) and the residue.
\<close>

definition whole_lon :: "real \<Rightarrow> int" where
  "whole_lon lon = \<lfloor>AngNormalize lon\<rfloor>"

definition whole_lat :: "real \<Rightarrow> int" where
  "whole_lat lat = min \<lfloor>lat\<rfloor> maxlat_c"

definition Georef_Forward_fin :: "real \<Rightarrow> real \<Rightarrow> int \<Rightarrow> error + string" where
  "Georef_Forward_fin lat0 lon0 prec0 =
     (let lon1 = AngNormalize lon0;
          prec = clamp_prec prec0;
          ilon = whole_lon lon0;
          lon2 = lon1 - of_int ilon;
          ilat = whole_lat lat0;
          lat2 = lat0 - of_int ilat
      in Forward_buffer ilon ilat prec lon2 lat2)"

definition Georef_Forward :: "fl \<Rightarrow> fl \<Rightarrow> int \<Rightarrow> error + string" where
  "Georef_Forward lat lon prec =
     (if abs_gt lat 90 then Inl (RangeError lat)
      else case (lat, lon) of
             (Fin la, Fin lo) \<Rightarrow> Georef_Forward_fin la lo prec
           | _ \<Rightarrow> Inr ''INVALID'')"

section \<open>Georef::Reverse\<close>

text \<open>
  \<open>georef.find_first_not_of(digits_, baselen_) != string::npos\<close>: some character at
  position \<open>baselen_\<close> or later is not in the table of digits.
\<close>

definition non_digit_from :: "string \<Rightarrow> int \<Rightarrow> bool" where
  "non_digit_from georef pos = list_ex (\<lambda>c. c \<notin> set digits_c) (drop (nat pos) georef)"

text \<open>\<open>georef.substr(baselen_)\<close>, called only where the string has \<open>baselen_\<close> characters.\<close>

definition substr :: "string \<Rightarrow> int \<Rightarrow> string" where
  "substr georef pos = drop (nat pos) georef"

text \<open>
  The loop \<open>for (int i = 0; i < prec1; ++i)\<close>: the first argument counts the passes
  still to run, the second is \<open>i\<close>; the state is \<open>(unit, lon1, lat1)\<close>.
\<close>

fun minutes_loop ::
  "string \<Rightarrow> int \<Rightarrow> nat \<Rightarrow> int \<Rightarrow> real \<times> real \<times> real \<Rightarrow> error + real \<times> real \<times> real" where
  "minutes_loop georef prec1 0 i (unit, lon1, lat1) = Inr (unit, lon1, lat1)"
| "minutes_loop georef prec1 (Suc n) i (unit, lon1, lat1) =
     (let m = (if i \<noteq> 0 then base_c else 6);
          unit1 = unit * of_int m
      in
        ebind (str_at georef (baselen_c + i)) (\<lambda>cx.
        ebind (str_at georef (baselen_c + i + prec1)) (\<lambda>cy.
          let x = lookup digits_c cx;
              y = lookup digits_c cy
          in if \<not> (i \<noteq> 0 \<or> (x < m \<and> y < m))
             then Inl (FormatError
                    (''Minutes terms in georef must be less than 60 '' @ substr georef baselen_c))
             else minutes_loop georef prec1 n (i + 1)
                    (unit1, of_int m * lon1 + of_int x, of_int m * lat1 + of_int y))))"

text \<open>
  \<open>Reverse\<close> from the length check to the end of the \<open>if (len > 2)\<close> block: the
  accumulated \<open>(unit, lon1, lat1)\<close> and \<open>prec1\<close>, or the exception thrown. The length
  of the string is assumed to fit an \<open>int\<close>.
\<close>

definition Georef_Reverse_cells :: "string \<Rightarrow> error + (real \<times> real \<times> real) \<times> int" where
  "Georef_Reverse_cells georef =
     (let len = int (length georef) in
      if len < baselen_c - 2
      then Inl (FormatError (''Georef must have at least 2 characters '' @ georef))
      else
        let prec1 = cdiv (2 + len - baselen_c) 2 - 1;
            k0 = lookup lontile_c (georef ! 0)
        in
        if k0 < 0
        then Inl (FormatError (''Bad longitude tile letter in georef '' @ georef))
        else
          let lon1 = of_int (k0 + lonorig_c) :: real;
              k1 = lookup lattile_c (georef ! 1)
          in
          if k1 < 0
          then Inl (FormatError (''Bad latitude tile letter in georef '' @ georef))
          else
            let lat1 = of_int (k1 + latorig_c) :: real;
                unit = 1 :: real
            in
            if len > 2 then
              let unit2 = unit * of_int tile_c;
                  k2 = lookup degrees_c (georef ! 2)
              in
              if k2 < 0
              then Inl (FormatError (''Bad longitude degree letter in georef '' @ georef))
              else
                let lon2 = lon1 * of_int tile_c + of_int k2 in
                if len < 4
                then Inl (FormatError (''Missing latitude degree letter in georef '' @ georef))
                else
                  let k3 = lookup degrees_c (georef ! 3) in
                  if k3 < 0
                  then Inl (FormatError (''Bad latitude degree letter in georef '' @ georef))
                  else
                    let lat2 = lat1 * of_int tile_c + of_int k3 in
                    if prec1 > 0 then
                      if non_digit_from georef baselen_c
                      then Inl (FormatError
                             (''Non digits in trailing portion of georef ''
                              @ substr georef baselen_c @ '' '' @ georef))
                      else if crem len 2 \<noteq> 0
                      then Inl (FormatError
                             (''Georef must end with an even number of digits ''
                              @ substr georef baselen_c))
                      else if prec1 = 1
                      then Inl (FormatError
                             (''Georef needs at least 4 digits for minutes ''
                              @ substr georef baselen_c))
                      else ebind (minutes_loop georef prec1 (nat prec1) 0 (unit2, lon2, lat2))
                             (\<lambda>acc. Inr (acc, prec1))
                    else Inr ((unit2, lon2, lat2), prec1)
            else Inr ((unit, lon1, lat1), prec1))"

text \<open>
  \<open>Reverse\<close>. The outputs \<open>lat\<close>, \<open>lon\<close> and \<open>prec\<close> are references in the source;
  \<open>prec_in\<close> is what the caller's \<open>prec\<close> holds before the call, and the result is
  \<open>(lat, lon, prec)\<close> as the caller finds them after a normal return.
\<close>

definition is_INV :: "string \<Rightarrow> bool" where
  "is_INV georef =
     (int (length georef) \<ge> 3 \<and>
      toupper (georef ! 0) = CHR ''I'' \<and>
      toupper (georef ! 1) = CHR ''N'' \<and>
      toupper (georef ! 2) = CHR ''V'')"

definition Georef_Reverse :: "string \<Rightarrow> int \<Rightarrow> bool \<Rightarrow> error + fl \<times> fl \<times> int" where
  "Georef_Reverse georef prec_in centerp =
     (if is_INV georef then Inr (NaN, NaN, prec_in)
      else
        ebind (Georef_Reverse_cells georef) (\<lambda>((unit, lon1, lat1), prec1).
          let (unit3, lat3, lon3) =
                (if centerp then (unit * 2, 2 * lat1 + 1, 2 * lon1 + 1) else (unit, lat1, lon1))
          in Inr (Fin ((of_int tile_c * lat3) / unit3),
                  Fin ((of_int tile_c * lon3) / unit3),
                  prec1)))"

text \<open>
  The size in degrees of the cell a georef of precision \<open>prec\<close> names, as the header
  documents it for both functions: \<open>-1\<close> is 15 degrees, \<open>0\<close> is 1 degree, \<open>2\<close> is one
  minute, \<open>3\<close> a tenth of a minute, and so on.
\<close>

definition cell_size :: "int \<Rightarrow> real" where
  "cell_size prec =
     (if prec = -1 then 15 else if prec = 0 then 1 else 1 / (60 * 10 ^ nat (prec - 2)))"

section \<open>Gnomonic\<close>

text \<open>
  The geodesic engine is outside the sources; a \<open>Gnomonic\<close> object holds a reference to
  one. It is a pair of functions here: \<open>GenInverse\<close> with the four outputs that
  \<open>Gnomonic::Forward\<close> asks for (initial azimuth, final azimuth, reduced length, geodesic
  scale), and \<open>Line\<close>, which for a start point and azimuth gives the \<open>Position\<close> function
  of that geodesic line, with the five outputs \<open>Gnomonic::Reverse\<close> reads. The numbers
  of \<open>GenInverse\<close> are finite reals. \<open>Position\<close> is asked for whatever arc length the
  iteration of \<open>Reverse\<close> has reached, NaN included, and each number it writes is a
  finite real or NaN.
\<close>

record inverse_out =
  inv_azi1 :: real
  inv_azi2 :: real
  inv_m12 :: real
  inv_M12 :: real

record position_out =
  pos_lat2 :: fl
  pos_lon2 :: fl
  pos_azi2 :: fl
  pos_m12 :: fl
  pos_M12 :: fl

record geodesic =
  GenInverse :: "real \<Rightarrow> real \<Rightarrow> real \<Rightarrow> real \<Rightarrow> inverse_out"
  Line :: "real \<Rightarrow> real \<Rightarrow> real \<Rightarrow> fl \<Rightarrow> position_out"

text \<open>The members \<open>_earth\<close> and \<open>_a\<close> of the class.\<close>

record gnomonic =
  g_earth :: geodesic
  g_a :: real

definition eps0_c :: real where "eps0_c = epsilon"
definition eps_c :: real where "eps_c = 0.01 * sqrt eps0_c"

text \<open>\<open>Math::degree<real>()\<close>, the number of radians in a degree.\<close>

definition degree :: real where "degree = pi / 180"

text \<open>The C library's \<open>atan2(y, x)\<close> and \<open>hypot\<close>.\<close>

definition atan2 :: "real \<Rightarrow> real \<Rightarrow> real" where
  "atan2 y x =
     (if x > 0 then arctan (y / x)
      else if x < 0 then (if y \<ge> 0 then arctan (y / x) + pi else arctan (y / x) - pi)
      else if y > 0 then pi / 2
      else if y < 0 then - pi / 2
      else 0)"

definition hypot :: "real \<Rightarrow> real \<Rightarrow> real" where
  "hypot x y = sqrt (x * x + y * y)"

subsection \<open>Gnomonic::Forward\<close>

text \<open>The result is \<open>(x, y, azi, rk)\<close>.\<close>

definition Gnomonic_Forward ::
  "gnomonic \<Rightarrow> real \<Rightarrow> real \<Rightarrow> real \<Rightarrow> real \<Rightarrow> fl \<times> fl \<times> fl \<times> fl" where
  "Gnomonic_Forward g lat0 lon0 lat lon =
     (let r = GenInverse (g_earth g) lat0 lon0 lat lon;
          azi0 = inv_azi1 r;
          azi = inv_azi2 r;
          m = inv_m12 r;
          M = inv_M12 r;
          rk = M
      in if M \<le> 0 then (NaN, NaN, Fin azi, Fin rk)
         else
           let rho = m / M;
               azi0r = azi0 * degree
           in (Fin (rho * sin azi0r), Fin (rho * cos azi0r), Fin azi, Fin rk))"

subsection \<open>Gnomonic::Reverse\<close>


fun fl_minus :: "fl \<Rightarrow> fl \<Rightarrow> fl" where
  "fl_minus (Fin a) (Fin b) = Fin (a - b)"
| "fl_minus a b = NaN"


text \<open>
  The Newton correction \<open>ds\<close> computed from one evaluation of the line,
  \<open>little ? (m/M - rho) * M * M : (rho - M/m) * m * m\<close>, for a finite \<open>rho\<close>. It is NaN
  when \<open>m\<close> or \<open>M\<close> is NaN. It is NaN as well when the divisor is zero: the quotient is
  then infinite or NaN, so is its difference with \<open>rho\<close>, and the product of that with
  the zero divisor is NaN.
\<close>

definition newton_ds :: "bool \<Rightarrow> real \<Rightarrow> position_out \<Rightarrow> fl" where
  "newton_ds little rho p =
     (case (pos_m12 p, pos_M12 p) of
        (Fin m, Fin M) \<Rightarrow>
          if little then (if M = 0 then NaN else Fin ((m / M - rho) * M * M))
          else (if m = 0 then NaN else Fin ((rho - M / m) * m * m))
      | _ \<Rightarrow> NaN)"


text \<open>
  What \<open>Reverse\<close> computes before the loop: the azimuth \<open>azi0\<close> of the line, the first
  arc length \<open>s\<close>, the flag \<open>little\<close>, and \<open>rho\<close> as the loop uses it. \<open>x\<close> and \<open>y\<close>
  are finite reals, and the equatorial radius \<open>_a\<close> is taken positive wherever these are
  used: then no divisor is zero here (\<open>rho > _a\<close> where \<open>1/rho\<close> is computed).
\<close>

definition rev_azi0 :: "real \<Rightarrow> real \<Rightarrow> real" where
  "rev_azi0 x y = atan2 x y / degree"

definition rev_s0 :: "gnomonic \<Rightarrow> real \<Rightarrow> real \<Rightarrow> real" where
  "rev_s0 g x y = g_a g * arctan (hypot x y / g_a g)"

definition rev_little :: "gnomonic \<Rightarrow> real \<Rightarrow> real \<Rightarrow> bool" where
  "rev_little g x y = (hypot x y \<le> g_a g)"

definition rev_rho :: "gnomonic \<Rightarrow> real \<Rightarrow> real \<Rightarrow> real" where
  "rev_rho g x y = (if \<not> rev_little g x y then 1 / hypot x y else hypot x y)"

definition rev_line :: "gnomonic \<Rightarrow> real \<Rightarrow> real \<Rightarrow> real \<Rightarrow> real \<Rightarrow> fl \<Rightarrow> position_out" where
  "rev_line g lat0 lon0 x y = Line (g_earth g) lat0 lon0 (rev_azi0 x y)"




subsection \<open>The Newton iteration, for stating what the loop does\<close>

text \<open>
  \<open>arc_length g lat0 lon0 x y k\<close> is the value of \<open>s\<close> after \<open>k\<close> updates \<open>s -= ds\<close>,
  were the loop never to stop, and \<open>correction g lat0 lon0 x y k\<close> the \<open>ds\<close> computed in
  pass \<open>k\<close> (counted from 0) from the evaluation of the line at \<open>arc_length \<dots> k\<close>.
  \<open>step_trips g lat0 lon0 x y k\<close> says that this correction passes the test
  \<open>!(abs(ds) >= eps_ * _a)\<close> of the source: it is below \<open>eps_ * _a\<close> in absolute value
  (\<open>step_small\<close>), or it is NaN (\<open>step_nan\<close>).
\<close>

definition newton_next :: "(fl \<Rightarrow> position_out) \<Rightarrow> bool \<Rightarrow> real \<Rightarrow> fl \<Rightarrow> fl" where
  "newton_next line little rho s = fl_minus s (newton_ds little rho (line s))"

definition arc_length :: "gnomonic \<Rightarrow> real \<Rightarrow> real \<Rightarrow> real \<Rightarrow> real \<Rightarrow> nat \<Rightarrow> fl" where
  "arc_length g lat0 lon0 x y k =
     (newton_next (rev_line g lat0 lon0 x y) (rev_little g x y) (rev_rho g x y) ^^ k)
       (Fin (rev_s0 g x y))"

definition correction :: "gnomonic \<Rightarrow> real \<Rightarrow> real \<Rightarrow> real \<Rightarrow> real \<Rightarrow> nat \<Rightarrow> fl" where
  "correction g lat0 lon0 x y k =
     newton_ds (rev_little g x y) (rev_rho g x y)
       (rev_line g lat0 lon0 x y (arc_length g lat0 lon0 x y k))"


definition step_small :: "gnomonic \<Rightarrow> real \<Rightarrow> real \<Rightarrow> real \<Rightarrow> real \<Rightarrow> nat \<Rightarrow> bool" where
  "step_small g lat0 lon0 x y k =
     (case correction g lat0 lon0 x y k of
        Fin d \<Rightarrow> \<bar>d\<bar> < eps_c * g_a g
      | NaN \<Rightarrow> False)"

definition step_nan :: "gnomonic \<Rightarrow> real \<Rightarrow> real \<Rightarrow> real \<Rightarrow> real \<Rightarrow> nat \<Rightarrow> bool" where
  "step_nan g lat0 lon0 x y k = isnan (correction g lat0 lon0 x y k)"

subsection \<open>Small engines to run the projection on\<close>

text \<open>
  Each reports the arc length itself as the latitude, so that two evaluations at
  different arc lengths can be told apart, and writes NaN everywhere when asked for a
  NaN arc length. \<open>gauge m M\<close> is the engine whose reduced length at arc length \<open>s\<close> is
  \<open>m s\<close> and whose geodesic scale is \<open>M s\<close>.
\<close>

definition gauge :: "(real \<Rightarrow> real) \<Rightarrow> (real \<Rightarrow> real) \<Rightarrow> fl \<Rightarrow> position_out" where
  "gauge m M s =
     (case s of
        Fin t \<Rightarrow> \<lparr>pos_lat2 = Fin t, pos_lon2 = Fin 0, pos_azi2 = Fin 0,
                  pos_m12 = Fin (m t), pos_M12 = Fin (M t)\<rparr>
      | NaN \<Rightarrow> \<lparr>pos_lat2 = NaN, pos_lon2 = NaN, pos_azi2 = NaN,
                pos_m12 = NaN, pos_M12 = NaN\<rparr>)"

text \<open>
  The plane: a geodesic is a straight line, the reduced length is the distance and the
  geodesic scale is 1.
\<close>

definition plane_position :: "fl \<Rightarrow> position_out" where
  "plane_position = gauge (\<lambda>s. s) (\<lambda>s. 1)"



text \<open>
  An engine whose geodesic scale is 1 down to arc length \<open>-2\<close> and 0 from there on:
  from \<open>rho = 0\<close> the corrections are 1 twice, then NaN.
\<close>

definition stall_position :: "fl \<Rightarrow> position_out" where
  "stall_position = gauge (\<lambda>s. 1) (\<lambda>s. if s > -2 then 1 else 0)"

definition engine_of :: "inverse_out \<Rightarrow> (fl \<Rightarrow> position_out) \<Rightarrow> gnomonic" where
  "engine_of r pos =
     \<lparr>g_earth = \<lparr>GenInverse = (\<lambda>lat0 lon0 lat lon. r), Line = (\<lambda>lat0 lon0 azi0. pos)\<rparr>,
      g_a = 1\<rparr>"

definition east_inverse :: inverse_out where
  "east_inverse = \<lparr>inv_azi1 = 90, inv_azi2 = 90, inv_m12 = 2, inv_M12 = 1\<rparr>"

definition beyond_inverse :: inverse_out where
  "beyond_inverse = \<lparr>inv_azi1 = 90, inv_azi2 = 90, inv_m12 = 2, inv_M12 = -1\<rparr>"

section \<open>Kinds of failure\<close>

text \<open>
  \<open>is_ub\<close> picks the three undefined behaviours out of the failures; \<open>ub_only r\<close> says
  that \<open>r\<close> is a result, or fails by undefined behaviour and not by an exception.
\<close>

fun is_ub :: "error \<Rightarrow> bool" where
  "is_ub (IndexError s i) = True"
| "is_ub (BufferError i) = True"
| "is_ub (UninitError i) = True"
| "is_ub (RangeError v) = False"
| "is_ub (FormatError m) = False"

definition ub_only :: "error + 'a \<Rightarrow> bool" where
  "ub_only r = (case r of Inl e \<Rightarrow> is_ub e | Inr v \<Rightarrow> True)"

text \<open>
  For stating what \<open>Forward\<close> writes and what \<open>Reverse\<close> reads back:
  \<open>digit_at p x j\<close> is digit \<open>j\<close> (the most significant is digit 0) of \<open>x\<close> written
  with \<open>p\<close> decimal digits; \<open>minutes_of prec r\<close> is the integer \<open>x\<close> (or \<open>y\<close>) that
  \<open>Forward\<close> computes from the residue \<open>r\<close>; \<open>minute_cells i\<close> is the number of cells
  of a degree that \<open>i\<close> digits tell apart, the first digit counting tens of minutes.
\<close>

definition digit_at :: "nat \<Rightarrow> nat \<Rightarrow> nat \<Rightarrow> nat" where
  "digit_at p x j = (x div 10 ^ (p - 1 - j)) mod 10"

definition minutes_of :: "int \<Rightarrow> real \<Rightarrow> nat" where
  "minutes_of prec r =
     nat \<lfloor>of_int base_c ^ nat (prec - 2) * of_int mult2_c
            * (if r = 1 then r - epsilon / 2 else r)\<rfloor>"

definition minute_cells :: "nat \<Rightarrow> nat" where
  "minute_cells i = (if i = 0 then 1 else 6 * 10 ^ (i - 1))"

text \<open>
  The cells of the buffer that \<open>c\<close> passes of the digit loop write at precision
  \<open>p\<close>: \<open>4 \<dots> 4 + c - 1\<close> and \<open>4 + p \<dots> 4 + p + c - 1\<close>.
\<close>

definition covered :: "nat \<Rightarrow> nat \<Rightarrow> nat \<Rightarrow> bool" where
  "covered p c j = ((4 \<le> j \<and> j < 4 + c) \<or> (4 + p \<le> j \<and> j < 4 + p + c))"

section \<open>Properties of the helpers\<close>

lemmas georef_consts = tile_c_def maxlat_c_def lonorig_c_def latorig_c_def base_c_def
  baselen_c_def maxprec_c_def mult2_c_def maxlen_c_def digits_c_def lontile_c_def
  lattile_c_def degrees_c_def

lemma ebind_Inl: "ebind (Inl e) f = Inl e"
  by (simp add: ebind_def)

lemma ebind_Inr: "ebind (Inr v) f = f v"
  by (simp add: ebind_def)

lemma ebind_eq_Inr: "ebind r f = Inr w \<longleftrightarrow> (\<exists>v. r = Inr v \<and> f v = Inr w)"
  by (cases r) (simp_all add: ebind_def)

lemma ebind_eq_Inl: "ebind r f = Inl e \<longleftrightarrow> r = Inl e \<or> (\<exists>v. r = Inr v \<and> f v = Inl e)"
  by (cases r) (simp_all add: ebind_def)

lemma cdiv_nonneg: "0 \<le> a \<Longrightarrow> 0 < b \<Longrightarrow> cdiv a b = a div b"
  by (cases "a = 0") (simp_all add: cdiv_def)

lemma crem_nonneg: "0 \<le> a \<Longrightarrow> 0 < b \<Longrightarrow> crem a b = a mod b"
  by (simp add: crem_def cdiv_nonneg minus_mult_div_eq_mod)

lemma new_buffer_cells:
  "new_buffer =
     [None, None, None, None, None, None, None, None, None, None, None, None, None,
      None, None, None, None, None, None, None, None, None, None, None, None, None]"
  by (simp add: new_buffer_def georef_consts eval_nat_numeral)

lemma digit_loop_numeral:
  "digit_loop (numeral k) prec x y b =
     ebind (str_at digits_c (int (x mod nat base_c))) (\<lambda>dx.
     ebind (buf_write b (baselen_c + int (pred_numeral k)) dx) (\<lambda>b1.
     ebind (str_at digits_c (int (y mod nat base_c))) (\<lambda>dy.
     ebind (buf_write b1 (baselen_c + int (pred_numeral k) + prec) dy) (\<lambda>b2.
     digit_loop (pred_numeral k) prec (x div nat base_c) (y div nat base_c) b2))))"
  by (simp add: numeral_eq_Suc)

lemma digit_loop_one:
  "digit_loop 1 prec x y b =
     ebind (str_at digits_c (int (x mod nat base_c))) (\<lambda>dx.
     ebind (buf_write b baselen_c dx) (\<lambda>b1.
     ebind (str_at digits_c (int (y mod nat base_c))) (\<lambda>dy.
     ebind (buf_write b1 (baselen_c + prec) dy) (\<lambda>b2. Inr b2))))"
  by (simp add: ebind_def split: sum.splits)

text \<open>Rewrite rules that run the two functions on a concrete input.\<close>

lemmas forward_eval = Georef_Forward_def Georef_Forward_fin_def Forward_buffer_def whole_lon_def
  whole_lat_def AngNormalize_def clamp_prec_def
  ebind_Inl ebind_Inr str_at_def buf_write_def buf_copy_def new_buffer_cells cdiv_def crem_def
  digit_loop_numeral digit_loop_one georef_consts

lemmas toupper_eval = toupper_def char_of_def bit_Suc_0_iff

lemmas reverse_eval = Georef_Reverse_def Georef_Reverse_cells_def is_INV_def lookup_def
  toupper_eval ebind_Inl ebind_Inr str_at_def non_digit_from_def substr_def cdiv_def crem_def
  georef_consts

section \<open>Georef::Forward: the guards\<close>

lemma ub_only_Inr: "ub_only (Inr v)"
  by (simp add: ub_only_def)

lemma ub_only_ebind: "ub_only r \<Longrightarrow> (\<And>v. ub_only (f v)) \<Longrightarrow> ub_only (ebind r f)"
  by (cases r) (simp_all add: ub_only_def ebind_def)

lemma ub_only_str_at: "ub_only (str_at s i)"
  by (simp add: ub_only_def str_at_def)

lemma ub_only_buf_write: "ub_only (buf_write b i c)"
  by (simp add: ub_only_def buf_write_def)

lemma ub_only_read_cells: "ub_only (read_cells cs i)"
proof (induction cs i rule: read_cells.induct)
  case (1 i)
  show ?case by (simp add: ub_only_def)
next
  case (2 cs i)
  show ?case by (simp add: ub_only_def)
next
  case (3 c cs i)
  then show ?case by (simp add: ub_only_ebind ub_only_Inr)
qed

lemma ub_only_buf_copy: "ub_only (buf_copy b n)"
  by (simp add: buf_copy_def ub_only_read_cells) (simp add: ub_only_def)

lemma ub_only_digit_loop: "ub_only (digit_loop c prec x y b)"
proof (induction c arbitrary: x y b)
  case 0
  show ?case by (simp add: ub_only_Inr)
next
  case (Suc c)
  show ?case
    by (simp add: ub_only_ebind ub_only_str_at ub_only_buf_write Suc.IH)
qed

lemma ub_only_Forward_fin: "ub_only (Georef_Forward_fin la lo prec)"
  unfolding Georef_Forward_fin_def Forward_buffer_def Let_def
  by (intro ub_only_ebind ub_only_str_at ub_only_buf_write ub_only_buf_copy)
     (simp_all add: ub_only_ebind ub_only_str_at ub_only_buf_write ub_only_digit_loop ub_only_Inr)

lemma Forward_fin_no_exception: "Georef_Forward_fin la lo prec \<noteq> Inl (RangeError v)"
  using ub_only_Forward_fin [of la lo prec] by (auto simp: ub_only_def)

text \<open>
  C7. \<open>GeorefEncode\<close> fails with a RangeError exactly when \<open>|lat| > 90\<close>, and then
  returns nothing; when \<open>lat\<close> or \<open>lon\<close> is NaN and \<open>|lat| > 90\<close> is false (as it is
  for a NaN latitude), it does not fail and returns the string \<open>INVALID\<close>.
\<close>

theorem Georef_Forward_guards:
  "(abs_gt lat 90 \<longrightarrow> Georef_Forward lat lon prec = Inl (RangeError lat)) \<and>
   (\<not> abs_gt lat 90 \<longrightarrow> (\<forall>v. Georef_Forward lat lon prec \<noteq> Inl (RangeError v))) \<and>
   ((isnan lat \<or> isnan lon) \<and> \<not> abs_gt lat 90 \<longrightarrow>
      Georef_Forward lat lon prec = Inr ''INVALID'')"
proof (intro conjI impI allI)
  assume "abs_gt lat 90"
  then show "Georef_Forward lat lon prec = Inl (RangeError lat)"
    by (simp add: Georef_Forward_def)
next
  fix v
  assume "\<not> abs_gt lat 90"
  then show "Georef_Forward lat lon prec \<noteq> Inl (RangeError v)"
    by (cases lat; cases lon) (simp_all add: Georef_Forward_def Forward_fin_no_exception)
next
  assume "(isnan lat \<or> isnan lon) \<and> \<not> abs_gt lat 90"
  then show "Georef_Forward lat lon prec = Inr ''INVALID''"
    by (cases lat; cases lon) (simp_all add: Georef_Forward_def)
qed

theorem Georef_Forward_guards_witness:
  "Georef_Forward (Fin 100) NaN 3 = Inl (RangeError (Fin 100)) \<and>
   Georef_Forward (Fin 57) (Fin 10) 3 \<noteq> Inl (RangeError (Fin 57)) \<and>
   Georef_Forward NaN (Fin 10) 3 = Inr ''INVALID'' \<and>
   Georef_Forward (Fin 57) NaN 3 = Inr ''INVALID''"
proof -
  have a: "abs_gt (Fin 100) 90" by simp
  have b: "\<not> abs_gt (Fin 57) 90" by simp
  have c: "(isnan NaN \<or> isnan (Fin 10)) \<and> \<not> abs_gt NaN 90" by simp
  have d: "(isnan (Fin 57) \<or> isnan NaN) \<and> \<not> abs_gt (Fin 57) 90" by simp
  note g1 = Georef_Forward_guards [of "Fin 100" NaN 3]
  note g2 = Georef_Forward_guards [of "Fin 57" "Fin 10" 3]
  note g3 = Georef_Forward_guards [of NaN "Fin 10" 3]
  note g4 = Georef_Forward_guards [of "Fin 57" NaN 3]
  from g1 a have 1: "Georef_Forward (Fin 100) NaN 3 = Inl (RangeError (Fin 100))" by blast
  from g2 b have 2: "Georef_Forward (Fin 57) (Fin 10) 3 \<noteq> Inl (RangeError (Fin 57))" by blast
  from g3 c have 3: "Georef_Forward NaN (Fin 10) 3 = Inr ''INVALID''" by blast
  from g4 d have 4: "Georef_Forward (Fin 57) NaN 3 = Inr ''INVALID''" by blast
  from 1 2 3 4 show ?thesis by blast
qed

section \<open>Georef::Reverse\<close>

subsection \<open>The sentinel\<close>

lemma is_INV_iff:
  "is_INV georef \<longleftrightarrow> 3 \<le> length georef \<and> map toupper (take 3 georef) = ''INV''"
proof (cases georef)
  case Nil
  then show ?thesis by (simp add: is_INV_def)
next
  case (Cons c0 r0)
  note g0 = this
  show ?thesis
  proof (cases r0)
    case Nil
    with g0 show ?thesis by (simp add: is_INV_def)
  next
    case (Cons c1 r1)
    note g1 = this
    show ?thesis
    proof (cases r1)
      case Nil
      with g0 g1 show ?thesis by (simp add: is_INV_def)
    next
      case (Cons c2 r2)
      with g0 g1 show ?thesis by (simp add: is_INV_def)
    qed
  qed
qed

text \<open>
  C9. For every string whose first three characters are, whatever their case, \<open>INV\<close>,
  \<open>GeorefDecode\<close> returns NaN for the latitude and for the longitude, leaves the
  caller's precision as it was before the call, and throws nothing.
\<close>

theorem Georef_Reverse_INV:
  assumes "3 \<le> length georef" and "map toupper (take 3 georef) = ''INV''"
  shows "Georef_Reverse georef prec_in centerp = Inr (NaN, NaN, prec_in)"
  using assms by (simp add: Georef_Reverse_def is_INV_iff)

theorem Georef_Reverse_INV_witness:
  "Georef_Reverse ''invalid'' 7 True = Inr (NaN, NaN, 7) \<and>
   Georef_Reverse ''INVx'' (-3) False = Inr (NaN, NaN, -3)"
proof -
  have l1: "3 \<le> length ''invalid''" by simp
  have u1: "map toupper (take 3 ''invalid'') = ''INV''" by (simp add: toupper_eval)
  have l2: "3 \<le> length ''INVx''" by simp
  have u2: "map toupper (take 3 ''INVx'') = ''INV''" by (simp add: toupper_eval)
  from Georef_Reverse_INV [OF l1 u1, of 7 True] Georef_Reverse_INV [OF l2 u2, of "-3" False]
  show ?thesis by (rule conjI)
qed

subsection \<open>Length and precision\<close>

lemma Reverse_cells_prec:
  assumes "Georef_Reverse_cells georef = Inr (acc, q)"
  shows "2 \<le> length georef \<and> q = (2 + int (length georef) - 4) div 2 - 1"
proof -
  have len: "2 \<le> length georef"
    using assms by (auto simp: Georef_Reverse_cells_def Let_def baselen_c_def split: if_splits)
  have "q = cdiv (2 + int (length georef) - baselen_c) 2 - 1"
    using assms
    by (auto simp: Georef_Reverse_cells_def Let_def ebind_eq_Inr split: if_splits)
  with len show ?thesis
    by (simp add: cdiv_nonneg baselen_c_def)
qed

lemma Reverse_cells_lengths:
  assumes "Georef_Reverse_cells georef = Inr (acc, q)"
  shows "length georef = 2 \<or> length georef = 4 \<or> length georef = 5 \<or>
         (8 \<le> length georef \<and> even (length georef))"
proof -
  have len: "2 \<le> length georef"
    using Reverse_cells_prec [OF assms] by simp
  have not3: "length georef \<noteq> 3"
    using assms by (auto simp: Georef_Reverse_cells_def Let_def split: if_splits)
  have big: "even (length georef) \<and> 8 \<le> length georef" if "6 \<le> length georef"
  proof -
    from that have p: "cdiv (2 + int (length georef) - baselen_c) 2 - 1 > 0"
      by (simp add: cdiv_nonneg baselen_c_def)
    with that assms have "crem (int (length georef)) 2 = 0"
      and "cdiv (2 + int (length georef) - baselen_c) 2 - 1 \<noteq> 1"
      by (auto simp: Georef_Reverse_cells_def Let_def split: if_splits)
    with that show ?thesis
      by (simp add: cdiv_nonneg crem_nonneg baselen_c_def) presburger
  qed
  from len not3 big show ?thesis by (cases "6 \<le> length georef") auto
qed

lemma Georef_Reverse_Inr:
  assumes "\<not> is_INV georef" and "Georef_Reverse georef prec_in centerp = Inr (lat, lon, prec)"
  shows "\<exists>acc. Georef_Reverse_cells georef = Inr (acc, prec)"
  using assms by (auto simp: Georef_Reverse_def ebind_eq_Inr Let_def split: if_splits)

text \<open>
  C8, as the code has it. For every string that does not begin with \<open>INV\<close> and that
  \<open>GeorefDecode\<close> accepts, the length is at least 2 and the precision returned is
  \<open>(2 + len - 4) / 2 - 1\<close> under integer division: a length of 2 gives \<open>-1\<close>, 4 gives
  0, 8 gives 2, 10 gives 3, and in general a length of \<open>4 + 2 * k\<close> gives \<open>k\<close>,
  that is, a length of \<open>8 + 2 * k\<close> gives \<open>k + 2\<close>.
\<close>

theorem Georef_Reverse_precision:
  assumes "\<not> is_INV georef"
    and "Georef_Reverse georef prec_in centerp = Inr (lat, lon, prec)"
  shows "2 \<le> length georef \<and>
         prec = (2 + int (length georef) - 4) div 2 - 1 \<and>
         (length georef = 2 \<longrightarrow> prec = -1) \<and>
         (length georef = 4 \<longrightarrow> prec = 0) \<and>
         (length georef = 8 \<longrightarrow> prec = 2) \<and>
         (length georef = 10 \<longrightarrow> prec = 3) \<and>
         (\<forall>k. int (length georef) = 4 + 2 * k \<longrightarrow> prec = k) \<and>
         (\<forall>k. int (length georef) = 8 + 2 * k \<longrightarrow> prec = k + 2)"
proof -
  from Georef_Reverse_Inr [OF assms] obtain acc where
    "Georef_Reverse_cells georef = Inr (acc, prec)" ..
  from Reverse_cells_prec [OF this]
  have len: "2 \<le> length georef"
    and p: "prec = (2 + int (length georef) - 4) div 2 - 1" by simp_all
  from p show ?thesis using len by auto
qed

lemma minutes_loop_numeral:
  "minutes_loop georef prec1 (numeral k) i (unit, lon1, lat1) =
     (let m = (if i \<noteq> 0 then base_c else 6);
          unit1 = unit * of_int m
      in
        ebind (str_at georef (baselen_c + i)) (\<lambda>cx.
        ebind (str_at georef (baselen_c + i + prec1)) (\<lambda>cy.
          let x = lookup digits_c cx;
              y = lookup digits_c cy
          in if \<not> (i \<noteq> 0 \<or> (x < m \<and> y < m))
             then Inl (FormatError
                    (''Minutes terms in georef must be less than 60 '' @ substr georef baselen_c))
             else minutes_loop georef prec1 (pred_numeral k) (i + 1)
                    (unit1, of_int m * lon1 + of_int x, of_int m * lat1 + of_int y))))"
  by (simp add: numeral_eq_Suc)

lemmas reverse_run = reverse_eval minutes_loop_numeral

theorem Georef_Reverse_precision_witness:
  "\<not> is_INV ''NKLN2438'' \<and>
   Georef_Reverse ''NKLN2438'' 0 True = Inr (Fin (6917 / 120), Fin (1249 / 120), 2) \<and>
   length ''NKLN2438'' = 8 \<and>
   int (length ''NKLN2438'') = 4 + 2 * 2 \<and>
   (2::int) = (2 + int (length ''NKLN2438'') - 4) div 2 - 1 \<and>
   \<not> is_INV ''NK'' \<and>
   Georef_Reverse ''NK'' 0 False = Inr (Fin 45, Fin 0, -1) \<and>
   length ''NK'' = 2 \<and>
   (-1::int) = (2 + int (length ''NK'') - 4) div 2 - 1"
proof -
  have n1: "\<not> is_INV ''NKLN2438''" by (simp add: is_INV_def toupper_eval)
  have r1: "Georef_Reverse ''NKLN2438'' 0 True = Inr (Fin (6917 / 120), Fin (1249 / 120), 2)"
    by (simp add: reverse_run)
  have n2: "\<not> is_INV ''NK''" by (simp add: is_INV_def)
  have r2: "Georef_Reverse ''NK'' 0 False = Inr (Fin 45, Fin 0, -1)"
    by (simp add: reverse_eval)
  note p1 = Georef_Reverse_precision [OF n1 r1, THEN conjunct2, THEN conjunct1]
  note p2 = Georef_Reverse_precision [OF n2 r2, THEN conjunct2, THEN conjunct1]
  have l1: "length ''NKLN2438'' = 8" and k1: "int (length ''NKLN2438'') = 4 + 2 * 2"
    and l2: "length ''NK'' = 2" by simp_all
  show ?thesis
    by (intro conjI n1 r1 l1 k1 p1 n2 r2 l2 p2)
qed

text \<open>
  C8 as the claim words it: "a length of \<open>4 + 2 * k\<close> gives precision \<open>k + 2\<close>". The
  string \<open>NKLN2438\<close> has length \<open>4 + 2 * 2\<close> and decodes with precision 2, not 4.
\<close>

theorem Georef_Reverse_precision_counterexample:
  "\<not> is_INV ''NKLN2438'' \<and>
   Georef_Reverse ''NKLN2438'' 0 True = Inr (Fin (6917 / 120), Fin (1249 / 120), 2) \<and>
   int (length ''NKLN2438'') = 4 + 2 * 2 \<and>
   (2::int) \<noteq> 2 + 2"
proof (intro conjI)
  show "\<not> is_INV ''NKLN2438''" by (simp add: is_INV_def toupper_eval)
  show "Georef_Reverse ''NKLN2438'' 0 True = Inr (Fin (6917 / 120), Fin (1249 / 120), 2)"
    by (simp add: reverse_run)
qed simp_all

subsection \<open>Centre and corner\<close>

lemma minutes_loop_unit:
  "minutes_loop georef prec1 n i (u, lo, la) = Inr (u', lo', la') \<Longrightarrow> 0 \<le> i \<Longrightarrow>
     u' = u * (if n = 0 then 1 else if i = 0 then 6 * 10 ^ (n - 1) else 10 ^ n)"
proof (induction n arbitrary: i u lo la)
  case 0
  then show ?case by simp
next
  case (Suc n)
  from Suc.prems obtain cx cy where
    step: "minutes_loop georef prec1 n (i + 1)
             (u * of_int (if i \<noteq> 0 then base_c else 6),
              of_int (if i \<noteq> 0 then base_c else 6) * lo + of_int (lookup digits_c cx),
              of_int (if i \<noteq> 0 then base_c else 6) * la + of_int (lookup digits_c cy))
           = Inr (u', lo', la')"
    by (auto simp: Let_def ebind_eq_Inr split: if_splits)
  from Suc.prems have next_i: "0 \<le> i + 1" "i + 1 \<noteq> 0" by simp_all
  show ?case
  proof (cases "i = 0")
    case True
    with Suc.IH [OF step] show ?thesis
      by (cases n) (simp_all add: base_c_def)
  next
    case False
    with next_i Suc.IH [OF step] show ?thesis
      by (simp add: base_c_def)
  qed
qed

lemma Reverse_cells_unit:
  assumes "Georef_Reverse_cells georef = Inr ((unit, lon1, lat1), q)"
  shows "unit = (if q = -1 then 1 else if q = 0 then 15 else 90 * 10 ^ nat (q - 1))"
    and "q \<noteq> 1" and "-1 \<le> q"
proof -
  have q: "q = (2 + int (length georef) - 4) div 2 - 1" and len: "2 \<le> length georef"
    using Reverse_cells_prec [OF assms] by simp_all
  from q len show "-1 \<le> q" by simp
  from Reverse_cells_lengths [OF assms] q show q1: "q \<noteq> 1" by auto
  show "unit = (if q = -1 then 1 else if q = 0 then 15 else 90 * 10 ^ nat (q - 1))"
  proof (cases "length georef > 2")
    case False
    with len have l2: "length georef = 2" by simp
    with assms have "unit = 1"
      by (auto simp: Georef_Reverse_cells_def Let_def baselen_c_def split: if_splits)
    with q l2 show ?thesis by simp
  next
    case True
    show ?thesis
    proof (cases "q > 0")
      case False
      with assms True have "unit = 15"
        by (auto simp: Georef_Reverse_cells_def Let_def tile_c_def baselen_c_def cdiv_nonneg
            ebind_eq_Inr split: if_splits)
      moreover from assms True have "4 \<le> length georef"
        by (auto simp: Georef_Reverse_cells_def Let_def split: if_splits)
      with q False have "q = 0" by linarith
      ultimately show ?thesis by simp
    next
      case qpos: True
      from assms True qpos obtain lo la where
        loop: "minutes_loop georef q (nat q) 0 (15, lo, la) = Inr (unit, lon1, lat1)"
        by (auto simp: Georef_Reverse_cells_def Let_def tile_c_def baselen_c_def cdiv_nonneg
            ebind_eq_Inr split: if_splits)
      from minutes_loop_unit [OF loop] qpos q1 show ?thesis
        by (simp add: nat_diff_distrib)
    qed
  qed
qed

lemma cell_size_unit:
  assumes "q \<noteq> 1" and "-1 \<le> q"
  shows "cell_size q = 15 / (if q = -1 then 1 else if q = 0 then 15 else 90 * 10 ^ nat (q - 1))"
proof (cases "q \<le> 0")
  case True
  with assms have "q = -1 \<or> q = 0" by linarith
  then show ?thesis by (auto simp: cell_size_def)
next
  case False
  with assms have "2 \<le> q" by linarith
  then have "nat (q - 1) = Suc (nat (q - 2))" by linarith
  with False assms show ?thesis by (simp add: cell_size_def)
qed

text \<open>
  C10. For every georef that \<open>GeorefDecode\<close> accepts (the sentinel apart, which decodes to
  NaN either way), the decode with the centre option is, on each axis, the south-west
  corner decode plus half the size of the smallest cell resolved; the code gets it by
  doubling the accumulated \<open>unit\<close> and replacing each accumulated integer \<open>c\<close> by
  \<open>2 * c + 1\<close> before the final division.
\<close>

theorem Georef_Reverse_center:
  assumes "\<not> is_INV georef"
    and "Georef_Reverse georef prec_in False = Inr (Fin lat0, Fin lon0, prec)"
  shows "Georef_Reverse georef prec_in True =
           Inr (Fin (lat0 + cell_size prec / 2), Fin (lon0 + cell_size prec / 2), prec) \<and>
         (\<exists>unit lon1 lat1.
            Georef_Reverse_cells georef = Inr ((unit, lon1, lat1), prec) \<and>
            lat0 = 15 * lat1 / unit \<and>
            lon0 = 15 * lon1 / unit \<and>
            lat0 + cell_size prec / 2 = 15 * (2 * lat1 + 1) / (unit * 2) \<and>
            lon0 + cell_size prec / 2 = 15 * (2 * lon1 + 1) / (unit * 2))"
proof -
  from assms obtain unit lon1 lat1 where
    cells: "Georef_Reverse_cells georef = Inr ((unit, lon1, lat1), prec)"
    and lat0: "lat0 = 15 * lat1 / unit" and lon0: "lon0 = 15 * lon1 / unit"
    by (auto simp: Georef_Reverse_def ebind_eq_Inr tile_c_def split: if_splits)
  from Reverse_cells_unit [OF cells] cell_size_unit [of prec]
  have unit: "cell_size prec = 15 / unit" and upos: "unit > 0"
    by (simp_all split: if_splits)
  have half_lat: "lat0 + cell_size prec / 2 = 15 * (2 * lat1 + 1) / (unit * 2)"
    using upos by (simp add: lat0 unit field_simps)
  have half_lon: "lon0 + cell_size prec / 2 = 15 * (2 * lon1 + 1) / (unit * 2)"
    using upos by (simp add: lon0 unit field_simps)
  have "Georef_Reverse georef prec_in True =
          Inr (Fin (15 * (2 * lat1 + 1) / (unit * 2)), Fin (15 * (2 * lon1 + 1) / (unit * 2)), prec)"
    using assms(1) cells by (simp add: Georef_Reverse_def ebind_Inr tile_c_def)
  with half_lat half_lon cells lat0 lon0 show ?thesis by simp
qed

theorem Georef_Reverse_center_witness:
  "\<not> is_INV ''NKLN2438'' \<and>
   Georef_Reverse ''NKLN2438'' 0 False = Inr (Fin (1729 / 30), Fin (52 / 5), 2) \<and>
   Georef_Reverse ''NKLN2438'' 0 True =
     Inr (Fin (1729 / 30 + cell_size 2 / 2), Fin (52 / 5 + cell_size 2 / 2), 2) \<and>
   cell_size 2 = 1 / 60"
proof -
  have n: "\<not> is_INV ''NKLN2438''" by (simp add: is_INV_def toupper_eval)
  have r: "Georef_Reverse ''NKLN2438'' 0 False = Inr (Fin (1729 / 30), Fin (52 / 5), 2)"
    by (simp add: reverse_run)
  note c = Georef_Reverse_center [OF n r, THEN conjunct1]
  have s: "cell_size 2 = 1 / 60" by (simp add: cell_size_def)
  show ?thesis by (intro conjI n r c s)
qed

subsection \<open>Characters after the four letters\<close>

text \<open>
  From six characters on, a character after the four letters that is not a digit, or an
  odd number of such characters, makes \<open>Reverse\<close> throw; with four good letters the
  message carries the offending tail \<open>georef.substr(4)\<close>.
\<close>

lemma Georef_Reverse_bad_tail:
  assumes "\<not> is_INV georef" and "6 \<le> length georef"
    and "non_digit_from georef baselen_c \<or> odd (length georef)"
  shows "\<exists>m. Georef_Reverse georef prec_in centerp = Inl (FormatError m)"
proof -
  from assms(2) have p: "cdiv (2 + int (length georef) - baselen_c) 2 - 1 > 0"
    by (simp add: cdiv_nonneg baselen_c_def)
  from assms(3) have bad: "non_digit_from georef baselen_c \<or> crem (int (length georef)) 2 \<noteq> 0"
    by (auto simp: crem_nonneg)
  from assms(2) p bad have "\<exists>m. Georef_Reverse_cells georef = Inl (FormatError m)"
    by (auto simp: Georef_Reverse_cells_def Let_def baselen_c_def)
  with assms(1) show ?thesis
    by (auto simp: Georef_Reverse_def ebind_Inl)
qed

lemma Georef_Reverse_bad_tail_message:
  assumes "\<not> is_INV georef" and "6 \<le> length georef"
    and "0 \<le> lookup lontile_c (georef ! 0)" and "0 \<le> lookup lattile_c (georef ! 1)"
    and "0 \<le> lookup degrees_c (georef ! 2)" and "0 \<le> lookup degrees_c (georef ! 3)"
  shows "non_digit_from georef 4 \<Longrightarrow>
           Georef_Reverse georef prec_in centerp =
             Inl (FormatError (''Non digits in trailing portion of georef ''
                               @ drop 4 georef @ '' '' @ georef))"
    and "\<not> non_digit_from georef 4 \<Longrightarrow> odd (length georef) \<Longrightarrow>
           Georef_Reverse georef prec_in centerp =
             Inl (FormatError (''Georef must end with an even number of digits ''
                               @ drop 4 georef))"
proof -
  from assms(2) have p: "cdiv (2 + int (length georef) - baselen_c) 2 - 1 > 0"
    by (simp add: cdiv_nonneg baselen_c_def)
  have pre: "\<not> lookup lontile_c (georef ! 0) < 0" "\<not> lookup lattile_c (georef ! 1) < 0"
    "\<not> lookup degrees_c (georef ! 2) < 0" "\<not> lookup degrees_c (georef ! 3) < 0"
    "\<not> int (length georef) < baselen_c - 2" "int (length georef) > 2"
    "\<not> int (length georef) < 4"
    using assms by (simp_all add: baselen_c_def)
  show "Georef_Reverse georef prec_in centerp =
          Inl (FormatError (''Non digits in trailing portion of georef ''
                            @ drop 4 georef @ '' '' @ georef))"
    if "non_digit_from georef 4"
    using that assms(1) p pre
    by (simp add: Georef_Reverse_def Georef_Reverse_cells_def Let_def ebind_Inl substr_def
        baselen_c_def)
  show "Georef_Reverse georef prec_in centerp =
          Inl (FormatError (''Georef must end with an even number of digits ''
                            @ drop 4 georef))"
    if "\<not> non_digit_from georef 4" and "odd (length georef)"
  proof -
    from that(2) have "crem (int (length georef)) 2 \<noteq> 0"
      by (simp add: crem_nonneg) presburger
    with that(1) assms(1) p pre show ?thesis
      by (simp add: Georef_Reverse_def Georef_Reverse_cells_def Let_def ebind_Inl substr_def
          baselen_c_def)
  qed
qed

text \<open>The two malformed strings the spec names are rejected.\<close>

lemma Georef_Reverse_malformed_examples:
  "Georef_Reverse ''NK1N2438'' 0 True =
     Inl (FormatError ''Bad longitude degree letter in georef NK1N2438'')"
  "Georef_Reverse ''NKLN24389'' 0 True =
     Inl (FormatError ''Georef must end with an even number of digits 24389'')"
  by (simp_all add: reverse_run)

text \<open>
  C3 at a string of five characters. \<open>NKLNX\<close> does not begin with \<open>INV\<close>, has more
  than four characters, and its one character after the four letters is not a digit (and
  one is an odd number of characters); the claim has the call fail with a FormatError.
  \<open>Reverse\<close> computes \<open>prec1 = (2 + 5 - 4) / 2 - 1 = 0\<close>, skips the checks of the
  tail, which sit under \<open>if (prec1 > 0)\<close>, and returns the centre of the cell \<open>NKLN\<close>
  with precision 0.
\<close>

theorem Georef_Reverse_five_characters:
  "\<not> is_INV ''NKLNX'' \<and>
   4 < length ''NKLNX'' \<and>
   non_digit_from ''NKLNX'' baselen_c \<and>
   odd (length ''NKLNX'' - 4) \<and>
   Georef_Reverse ''NKLNX'' 0 True = Inr (Fin (115 / 2), Fin (21 / 2), 0)"
proof (intro conjI)
  show "\<not> is_INV ''NKLNX''" by (simp add: is_INV_def toupper_eval)
  show "non_digit_from ''NKLNX'' baselen_c"
    by (simp add: non_digit_from_def georef_consts)
  show "Georef_Reverse ''NKLNX'' 0 True = Inr (Fin (115 / 2), Fin (21 / 2), 0)"
    by (simp add: reverse_run)
qed simp_all

subsection \<open>Every failure of Reverse is a thrown exception\<close>

text \<open>
  The reads \<open>georef[baselen_ + i]\<close> and \<open>georef[baselen_ + i + prec1]\<close> of the loop stay
  inside the string, so \<open>Reverse\<close> has no undefined behaviour: it returns, or throws.
\<close>

lemma minutes_loop_failure:
  assumes "int (length georef) = baselen_c + 2 * prec1" and "i + int n = prec1" and "0 \<le> i"
    and "minutes_loop georef prec1 n i acc = Inl e"
  shows "\<exists>m. e = FormatError m"
  using assms(2-4)
proof (induction n arbitrary: i acc)
  case 0
  then show ?case by (cases acc) simp
next
  case (Suc n)
  obtain u lo la where acc: "acc = (u, lo, la)" by (cases acc)
  from Suc.prems(1,2) assms(1)
  have rx: "str_at georef (baselen_c + i) = Inr (georef ! nat (baselen_c + i))"
    and ry: "str_at georef (baselen_c + i + prec1) = Inr (georef ! nat (baselen_c + i + prec1))"
    by (simp_all add: str_at_def baselen_c_def)
  from Suc.prems(1,2) have next_i: "(i + 1) + int n = prec1" "0 \<le> i + 1" by simp_all
  define m where "m = (if i \<noteq> 0 then base_c else 6)"
  define dx where "dx = lookup digits_c (georef ! nat (baselen_c + i))"
  define dy where "dy = lookup digits_c (georef ! nat (baselen_c + i + prec1))"
  have step: "minutes_loop georef prec1 (Suc n) i (u, lo, la) =
     (if \<not> (i \<noteq> 0 \<or> (dx < m \<and> dy < m))
      then Inl (FormatError
             (''Minutes terms in georef must be less than 60 '' @ substr georef baselen_c))
      else minutes_loop georef prec1 n (i + 1)
             (u * of_int m, of_int m * lo + of_int dx, of_int m * la + of_int dy))"
    by (simp only: minutes_loop.simps Let_def rx ry ebind_Inr m_def dx_def dy_def)
  show ?case
  proof (cases "\<not> (i \<noteq> 0 \<or> (dx < m \<and> dy < m))")
    case True
    then have "minutes_loop georef prec1 (Suc n) i (u, lo, la) =
                 Inl (FormatError
                   (''Minutes terms in georef must be less than 60 '' @ substr georef baselen_c))"
      by (simp only: step) simp
    with Suc.prems(3) show ?thesis
      by (simp add: acc)
  next
    case False
    then have "minutes_loop georef prec1 (Suc n) i (u, lo, la) =
                 minutes_loop georef prec1 n (i + 1)
                   (u * of_int m, of_int m * lo + of_int dx, of_int m * la + of_int dy)"
      by (simp only: step) simp
    with Suc.prems(3)
    have "minutes_loop georef prec1 n (i + 1)
             (u * of_int m, of_int m * lo + of_int dx, of_int m * la + of_int dy) = Inl e"
      by (simp only: acc)
    from Suc.IH [OF next_i this] show ?thesis .
  qed
qed

lemma Georef_Reverse_failure:
  assumes "Georef_Reverse georef prec_in centerp = Inl e"
  shows "\<exists>m. e = FormatError m"
proof -
  from assms have cells: "Georef_Reverse_cells georef = Inl e"
    by (auto simp: Georef_Reverse_def ebind_eq_Inl split: if_splits prod.splits)
  show ?thesis
  proof (cases "\<exists>acc. minutes_loop georef (cdiv (2 + int (length georef) - baselen_c) 2 - 1)
                   (nat (cdiv (2 + int (length georef) - baselen_c) 2 - 1)) 0 acc = Inl e
                 \<and> 2 \<le> length georef \<and> crem (int (length georef)) 2 = 0
                 \<and> 0 < cdiv (2 + int (length georef) - baselen_c) 2 - 1")
    case True
    then obtain acc where
      loop: "minutes_loop georef (cdiv (2 + int (length georef) - baselen_c) 2 - 1)
               (nat (cdiv (2 + int (length georef) - baselen_c) 2 - 1)) 0 acc = Inl e"
      and len: "2 \<le> length georef" and even: "crem (int (length georef)) 2 = 0"
      and pos: "0 < cdiv (2 + int (length georef) - baselen_c) 2 - 1"
      by blast
    define q where "q = cdiv (2 + int (length georef) - baselen_c) 2 - 1"
    from len have q: "q = (int (length georef) - 2) div 2 - 1"
      by (simp add: q_def cdiv_nonneg baselen_c_def)
    from even have "int (length georef) mod 2 = 0" by (simp add: crem_nonneg)
    with q have l: "int (length georef) = baselen_c + 2 * q"
      by (simp add: baselen_c_def) presburger
    from pos have "0 + int (nat q) = q" by (simp add: q_def)
    from minutes_loop_failure [OF l this order_refl] loop show ?thesis
      by (simp add: q_def)
  next
    case False
    with cells show ?thesis
      by (auto simp: Georef_Reverse_cells_def Let_def ebind_eq_Inl baselen_c_def
          split: if_splits)
  qed
qed

section \<open>Georef::Forward: precision and indices\<close>

lemma clamp_prec_range: "-1 \<le> clamp_prec prec \<and> clamp_prec prec \<le> 11 \<and> clamp_prec prec \<noteq> 1"
  by (auto simp: clamp_prec_def maxprec_c_def Let_def)

lemma clamp_prec_one: "clamp_prec 1 = clamp_prec 2"
  by (simp add: clamp_prec_def maxprec_c_def)

lemma clamp_prec_id: "-1 \<le> prec \<Longrightarrow> prec \<le> 11 \<Longrightarrow> prec \<noteq> 1 \<Longrightarrow> clamp_prec prec = prec"
  by (simp add: clamp_prec_def maxprec_c_def)

lemma Georef_Forward_fin_one: "Georef_Forward_fin la lo 1 = Georef_Forward_fin la lo 2"
  by (simp add: Georef_Forward_fin_def clamp_prec_one)

lemma Georef_Forward_one: "Georef_Forward lat lon 1 = Georef_Forward lat lon 2"
  by (simp add: Georef_Forward_def Georef_Forward_fin_one split: fl.split)

lemma AngNormalize_range: "-180 \<le> AngNormalize x \<and> AngNormalize x < 180"
proof -
  define k where "k = \<lfloor>(x + 180) / 360\<rfloor>"
  have "of_int k \<le> (x + 180) / 360" and "(x + 180) / 360 < of_int k + 1"
    unfolding k_def by linarith+
  then have "360 * of_int k \<le> x + 180" and "x + 180 < 360 * of_int k + 360"
    by (simp_all add: field_simps)
  then show ?thesis
    by (simp add: AngNormalize_def k_def [symmetric])
qed

lemma cdiv_lon_bounds:
  assumes "-180 \<le> i" and "i < 180"
  shows "-12 \<le> cdiv i 15 \<and> cdiv i 15 < 12"
proof (cases "0 \<le> i")
  case True
  with assms show ?thesis by (simp add: cdiv_nonneg) presburger
next
  case False
  then have "cdiv i 15 = - ((- i) div 15)"
    by (simp add: cdiv_def sgn_if)
  with False assms show ?thesis by presburger
qed

lemma cdiv_lat_bounds:
  assumes "-90 \<le> i" and "i < 90"
  shows "-6 \<le> cdiv i 15 \<and> cdiv i 15 < 6"
proof (cases "0 \<le> i")
  case True
  with assms show ?thesis by (simp add: cdiv_nonneg) presburger
next
  case False
  then have "cdiv i 15 = - ((- i) div 15)"
    by (simp add: cdiv_def sgn_if)
  with False assms show ?thesis by presburger
qed

lemma crem_tile_bounds: "-15 < crem i 15 \<and> crem i 15 < 15"
proof (cases "0 \<le> i")
  case True
  then show ?thesis by (simp add: crem_nonneg)
next
  case False
  then have "crem i 15 = - ((- i) mod 15)"
    by (simp add: crem_def cdiv_def sgn_if minus_mult_div_eq_mod [symmetric])
  then show ?thesis
    using pos_mod_bound [of 15 "- i"] pos_mod_sign [of 15 "- i"] by linarith
qed

lemma crem_negative: "i < 0 \<Longrightarrow> \<not> 15 dvd i \<Longrightarrow> crem i 15 < 0"
proof -
  assume a: "i < 0" "\<not> 15 dvd i"
  then have c: "crem i 15 = - ((- i) mod 15)"
    by (simp add: crem_def cdiv_def sgn_if minus_mult_div_eq_mod [symmetric])
  from a have "(- i) mod 15 \<noteq> 0"
    by (simp add: dvd_eq_mod_eq_0 [symmetric])
  with pos_mod_sign [of 15 "- i"] c show ?thesis by linarith
qed

lemma str_at_Inr: "0 \<le> i \<Longrightarrow> i < int (length s) \<Longrightarrow> str_at s i = Inr (s ! nat i)"
  by (simp add: str_at_def)

lemma str_at_negative: "i < 0 \<Longrightarrow> str_at s i = Inl (IndexError s i)"
  by (simp add: str_at_def)

lemma buf_write_Inr:
  "0 \<le> i \<Longrightarrow> i < int (length b) \<Longrightarrow> buf_write b i c = Inr (b[nat i := Some c])"
  by (simp add: buf_write_def)

lemma read_cells_written:
  "\<forall>j<length cs. cs ! j \<noteq> None \<Longrightarrow> read_cells cs i = Inr (map the cs)"
proof (induction cs i rule: read_cells.induct)
  case (1 i)
  show ?case by simp
next
  case (2 cs i)
  then show ?case by auto
next
  case (3 c cs i)
  from "3.prems" have "\<forall>j<length cs. cs ! j \<noteq> None" by auto
  with "3.IH" show ?case by (simp add: ebind_Inr)
qed

lemma buf_copy_written:
  assumes "0 \<le> n" and "n \<le> int (length b)" and "\<forall>j<nat n. b ! j \<noteq> None"
  shows "buf_copy b n = Inr (map the (take (nat n) b))"
proof -
  from assms have "\<forall>j<length (take (nat n) b). take (nat n) b ! j \<noteq> None" by simp
  from read_cells_written [OF this] assms show ?thesis
    by (simp add: buf_copy_def)
qed

text \<open>
  The digit loop on a buffer of \<open>maxlen_\<close> cells, for a precision within the clamp: no
  read of the digit table and no write to the buffer is out of range, and the cells
  \<open>4 \<dots> 4 + c - 1\<close> and \<open>4 + prec \<dots> 4 + prec + c - 1\<close> end up written.
\<close>

lemma covered_Suc: "covered p (Suc c) j \<longleftrightarrow> covered p c j \<or> j = 4 + c \<or> j = 4 + p + c"
  by (auto simp: covered_def)

lemma digit_loop_written:
  assumes "length b = 26" and "0 \<le> prec" and "prec \<le> 11" and "c \<le> nat prec"
  shows "\<exists>b'. digit_loop c prec x y b = Inr b' \<and> length b' = 26 \<and>
           (\<forall>j. b ! j \<noteq> None \<or> covered (nat prec) c j \<longrightarrow> b' ! j \<noteq> None)"
  using assms
proof (induction c arbitrary: b x y)
  case 0
  then show ?case by (auto simp: covered_def)
next
  case (Suc c)
  define dx where "dx = digits_c ! (x mod 10)"
  define dy where "dy = digits_c ! (y mod 10)"
  define b2 where "b2 = b[4 + c := Some dx, 4 + nat prec + c := Some dy]"
  from Suc.prems have in_range: "4 + c < length b" "4 + nat prec + c < length b" by simp_all
  have rx: "str_at digits_c (int (x mod nat base_c)) = Inr dx"
    and ry: "str_at digits_c (int (y mod nat base_c)) = Inr dy"
    by (simp_all add: str_at_def base_c_def digits_c_def dx_def dy_def)
  from Suc.prems have w1: "buf_write b (baselen_c + int c) dx = Inr (b[4 + c := Some dx])"
    by (simp add: buf_write_def baselen_c_def nat_add_distrib)
  from Suc.prems
  have w2: "buf_write (b[4 + c := Some dx]) (baselen_c + int c + prec) dy = Inr b2"
    by (simp add: buf_write_def baselen_c_def nat_add_distrib b2_def add.commute add.left_commute)
  have step: "digit_loop (Suc c) prec x y b = digit_loop c prec (x div 10) (y div 10) b2"
    by (simp add: rx ry w1 w2 ebind_Inr) (simp add: base_c_def)
  from Suc.prems have len2: "length b2 = 26" and c: "c \<le> nat prec"
    by (simp_all add: b2_def)
  from Suc.IH [OF len2 Suc.prems(2,3) c, of "x div 10" "y div 10"]
  obtain b' where run: "digit_loop c prec (x div 10) (y div 10) b2 = Inr b'"
    and len': "length b' = 26"
    and cells: "\<And>j. b2 ! j \<noteq> None \<or> covered (nat prec) c j \<Longrightarrow> b' ! j \<noteq> None"
    by blast
  have b2_nth: "b2 ! j = (if j = 4 + nat prec + c then Some dy
                          else if j = 4 + c then Some dx else b ! j)" for j
    using in_range by (simp add: b2_def nth_list_update)
  have written: "b' ! j \<noteq> None" if "b ! j \<noteq> None \<or> covered (nat prec) (Suc c) j" for j
  proof (rule cells)
    from that show "b2 ! j \<noteq> None \<or> covered (nat prec) c j"
      by (auto simp: b2_nth covered_Suc)
  qed
  show ?case
  proof (intro exI conjI allI impI)
    show "digit_loop (Suc c) prec x y b = Inr b'" by (simp only: step run)
    show "length b' = 26" by (rule len')
  next
    fix j
    assume "b ! j \<noteq> None \<or> covered (nat prec) (Suc c) j"
    then show "b' ! j \<noteq> None" by (rule written)
  qed
qed

text \<open>What the digit loop writes: the decimal digits of \<open>x\<close> and of \<open>y\<close>.\<close>

lemma digit_at_Suc:
  assumes "j < c"
  shows "digit_at (Suc c) x j = digit_at c (x div 10) j"
proof -
  from assms have "c - j = Suc (c - 1 - j)" by simp
  then have "x div 10 ^ (c - j) = x div 10 div 10 ^ (c - 1 - j)"
    by (simp add: div_mult2_eq)
  then show ?thesis by (simp add: digit_at_def)
qed

lemma digit_at_last: "digit_at (Suc c) x c = x mod 10"
  by (simp add: digit_at_def)

lemma digit_loop_cells:
  assumes "length b = 26" and "0 \<le> prec" and "prec \<le> 11" and "c \<le> nat prec"
  shows "\<exists>b'. digit_loop c prec x y b = Inr b' \<and> length b' = 26 \<and>
           (\<forall>j<c. b' ! (4 + j) = Some (digits_c ! digit_at c x j) \<and>
                   b' ! (4 + nat prec + j) = Some (digits_c ! digit_at c y j)) \<and>
           (\<forall>j. \<not> covered (nat prec) c j \<longrightarrow> b' ! j = b ! j)"
  using assms
proof (induction c arbitrary: b x y)
  case 0
  then show ?case by simp
next
  case (Suc c)
  define dx where "dx = digits_c ! (x mod 10)"
  define dy where "dy = digits_c ! (y mod 10)"
  define b2 where "b2 = b[4 + c := Some dx, 4 + nat prec + c := Some dy]"
  from Suc.prems have in_range: "4 + c < length b" "4 + nat prec + c < length b"
    and c_less: "c < nat prec" by simp_all
  have rx: "str_at digits_c (int (x mod nat base_c)) = Inr dx"
    and ry: "str_at digits_c (int (y mod nat base_c)) = Inr dy"
    by (simp_all add: str_at_def base_c_def digits_c_def dx_def dy_def)
  from Suc.prems have w1: "buf_write b (baselen_c + int c) dx = Inr (b[4 + c := Some dx])"
    by (simp add: buf_write_def baselen_c_def nat_add_distrib)
  from Suc.prems
  have w2: "buf_write (b[4 + c := Some dx]) (baselen_c + int c + prec) dy = Inr b2"
    by (simp add: buf_write_def baselen_c_def nat_add_distrib b2_def add.commute add.left_commute)
  have step: "digit_loop (Suc c) prec x y b = digit_loop c prec (x div 10) (y div 10) b2"
    by (simp add: rx ry w1 w2 ebind_Inr) (simp add: base_c_def)
  from Suc.prems have len2: "length b2 = 26" and c: "c \<le> nat prec"
    by (simp_all add: b2_def)
  from Suc.IH [OF len2 Suc.prems(2,3) c, of "x div 10" "y div 10"]
  obtain b' where run: "digit_loop c prec (x div 10) (y div 10) b2 = Inr b'"
    and len': "length b' = 26"
    and digits: "\<And>j. j < c \<Longrightarrow> b' ! (4 + j) = Some (digits_c ! digit_at c (x div 10) j) \<and>
                   b' ! (4 + nat prec + j) = Some (digits_c ! digit_at c (y div 10) j)"
    and others: "\<And>j. \<not> covered (nat prec) c j \<Longrightarrow> b' ! j = b2 ! j"
    by blast
  have b2_nth: "b2 ! j = (if j = 4 + nat prec + c then Some dy
                          else if j = 4 + c then Some dx else b ! j)" for j
    using in_range by (simp add: b2_def nth_list_update)
  have last_x: "b' ! (4 + c) = Some dx"
  proof -
    from c_less have "\<not> covered (nat prec) c (4 + c)" by (simp add: covered_def)
    moreover from c_less have "0 < nat prec" by simp
    ultimately show ?thesis using others [of "4 + c"] by (simp add: b2_nth)
  qed
  have last_y: "b' ! (4 + nat prec + c) = Some dy"
  proof -
    have "\<not> covered (nat prec) c (4 + nat prec + c)" by (simp add: covered_def)
    from others [OF this] show ?thesis by (simp add: b2_nth)
  qed
  have cells: "b' ! (4 + j) = Some (digits_c ! digit_at (Suc c) x j) \<and>
               b' ! (4 + nat prec + j) = Some (digits_c ! digit_at (Suc c) y j)"
    if "j < Suc c" for j
  proof (cases "j = c")
    case True
    with last_x last_y show ?thesis
      by (simp add: digit_at_last dx_def dy_def)
  next
    case False
    with that have "j < c" by simp
    with digits [OF this] show ?thesis
      by (simp add: digit_at_Suc)
  qed
  have same: "b' ! j = b ! j" if "\<not> covered (nat prec) (Suc c) j" for j
  proof -
    from that have nc: "\<not> covered (nat prec) c j" and "j \<noteq> 4 + c" and "j \<noteq> 4 + nat prec + c"
      by (auto simp: covered_Suc)
    with others [OF nc] show ?thesis by (simp add: b2_nth)
  qed
  show ?case
  proof (intro exI conjI allI impI)
    show "digit_loop (Suc c) prec x y b = Inr b'" by (simp only: step run)
    show "length b' = 26" by (rule len')
  next
    fix j assume "j < Suc c"
    from cells [OF this]
    show "b' ! (4 + j) = Some (digits_c ! digit_at (Suc c) x j)"
      and "b' ! (4 + nat prec + j) = Some (digits_c ! digit_at (Suc c) y j)" by simp_all
  next
    fix j assume "\<not> covered (nat prec) (Suc c) j"
    then show "b' ! j = b ! j" by (rule same)
  qed
qed

text \<open>
  The two tile letters: for whole degrees in range, both reads of the tile tables and
  both writes are in bounds.
\<close>

lemma Forward_buffer_tiles:
  assumes "-180 \<le> ilon" and "ilon < 180" and "-90 \<le> ilat" and "ilat < 90"
  shows "Forward_buffer ilon ilat prec lon2 lat2 =
     ebind
       (if prec \<ge> 0 then
          ebind (str_at degrees_c (crem ilon tile_c)) (\<lambda>c2.
          ebind (buf_write
                  (new_buffer[0 := Some (lontile_c ! nat (cdiv ilon tile_c - lonorig_c)),
                              1 := Some (lattile_c ! nat (cdiv ilat tile_c - latorig_c))])
                  2 c2) (\<lambda>b2.
          ebind (str_at degrees_c (crem ilat tile_c)) (\<lambda>c3.
          ebind (buf_write b2 3 c3) (\<lambda>b3.
            if prec > 0 then
              (let lon3 = (if lon2 = 1 then lon2 - epsilon / 2 else lon2);
                   lat3 = (if lat2 = 1 then lat2 - epsilon / 2 else lat2);
                   mult = of_int base_c ^ nat (prec - 2) * of_int mult2_c;
                   x = nat \<lfloor>mult * lon3\<rfloor>;
                   y = nat \<lfloor>mult * lat3\<rfloor>
               in digit_loop (nat prec) prec x y b3)
            else Inr b3))))
        else Inr (new_buffer[0 := Some (lontile_c ! nat (cdiv ilon tile_c - lonorig_c)),
                             1 := Some (lattile_c ! nat (cdiv ilat tile_c - latorig_c))]))
       (\<lambda>b. buf_copy b (baselen_c + 2 * prec))"
proof -
  from cdiv_lon_bounds [OF assms(1,2)]
  have t0: "str_at lontile_c (cdiv ilon tile_c - lonorig_c)
              = Inr (lontile_c ! nat (cdiv ilon tile_c - lonorig_c))"
    by (intro str_at_Inr) (simp_all add: tile_c_def lonorig_c_def lontile_c_def cdiv_def)
  from cdiv_lat_bounds [OF assms(3,4)]
  have t1: "str_at lattile_c (cdiv ilat tile_c - latorig_c)
              = Inr (lattile_c ! nat (cdiv ilat tile_c - latorig_c))"
    by (intro str_at_Inr) (simp_all add: tile_c_def latorig_c_def lattile_c_def cdiv_def)
  have w0: "buf_write new_buffer 0 c = Inr (new_buffer[0 := Some c])" for c
    by (simp add: buf_write_def new_buffer_def maxlen_c_def baselen_c_def maxprec_c_def)
  have w1: "buf_write (new_buffer[0 := Some c]) 1 c' = Inr (new_buffer[0 := Some c, 1 := Some c'])"
    for c c'
    by (simp add: buf_write_def new_buffer_def maxlen_c_def baselen_c_def maxprec_c_def)
  show ?thesis
    unfolding Forward_buffer_def
    by (simp only: t0 t1 w0 w1 ebind_Inr)
qed

lemma new_buffer_length: "length new_buffer = 26"
  by (simp add: new_buffer_def maxlen_c_def baselen_c_def maxprec_c_def)

lemma str_at_degrees:
  "0 \<le> crem i tile_c \<Longrightarrow> str_at degrees_c (crem i tile_c) = Inr (degrees_c ! nat (crem i tile_c))"
  using crem_tile_bounds [of i]
  by (intro str_at_Inr) (simp_all add: tile_c_def degrees_c_def)

text \<open>
  The degree letters: a negative remainder \<open>ilon % tile_\<close> or \<open>ilat % tile_\<close> is
  used as it is to index the table of degree letters.
\<close>

lemma Forward_buffer_fails_lon:
  assumes "-180 \<le> ilon" and "ilon < 180" and "-90 \<le> ilat" and "ilat < 90"
    and "0 \<le> prec" and "crem ilon tile_c < 0"
  shows "Forward_buffer ilon ilat prec lon2 lat2 = Inl (IndexError degrees_c (crem ilon tile_c))"
  by (simp only: Forward_buffer_tiles [OF assms(1-4)] assms(5) if_True
      str_at_negative [OF assms(6)] ebind_Inl)

lemma Forward_buffer_fails_lat:
  assumes "-180 \<le> ilon" and "ilon < 180" and "-90 \<le> ilat" and "ilat < 90"
    and "0 \<le> prec" and "0 \<le> crem ilon tile_c" and "crem ilat tile_c < 0"
  shows "Forward_buffer ilon ilat prec lon2 lat2 = Inl (IndexError degrees_c (crem ilat tile_c))"
proof -
  have "buf_write (new_buffer[0 := Some c0, 1 := Some c1]) 2 c
          = Inr (new_buffer[0 := Some c0, 1 := Some c1, nat 2 := Some c])" for c0 c1 c
    by (intro buf_write_Inr) (simp_all add: new_buffer_length)
  then show ?thesis
    by (simp only: Forward_buffer_tiles [OF assms(1-4)] assms(5) if_True
        str_at_degrees [OF assms(6)] str_at_negative [OF assms(7)] ebind_Inl ebind_Inr)
qed

text \<open>
  Where no remainder is negative, or no degree letter is asked for, the call returns a
  string of \<open>baselen_ + 2 * prec\<close> characters: every other read and write is in bounds
  and every cell copied out has been written. The string holds the two tile letters,
  then, for \<open>prec \<ge> 0\<close>, the two degree letters, then, for \<open>prec > 0\<close>, the
  \<open>prec\<close> decimal digits of \<open>x\<close> followed by those of \<open>y\<close>.
\<close>

lemma Forward_buffer_succeeds:
  assumes "-180 \<le> ilon" and "ilon < 180" and "-90 \<le> ilat" and "ilat < 90"
    and "-1 \<le> prec" and "prec \<le> 11"
    and "prec < 0 \<or> (0 \<le> crem ilon tile_c \<and> 0 \<le> crem ilat tile_c)"
  shows "\<exists>s. Forward_buffer ilon ilat prec lon2 lat2 = Inr s \<and>
             int (length s) = baselen_c + 2 * prec \<and>
             s ! 0 = lontile_c ! nat (cdiv ilon tile_c - lonorig_c) \<and>
             s ! 1 = lattile_c ! nat (cdiv ilat tile_c - latorig_c) \<and>
             (0 \<le> prec \<longrightarrow> s ! 2 = degrees_c ! nat (crem ilon tile_c) \<and>
                           s ! 3 = degrees_c ! nat (crem ilat tile_c)) \<and>
             (0 < prec \<longrightarrow>
                (\<forall>j<nat prec.
                   s ! (4 + j) = digits_c ! digit_at (nat prec) (minutes_of prec lon2) j \<and>
                   s ! (4 + nat prec + j) = digits_c ! digit_at (nat prec) (minutes_of prec lat2) j))"
proof -
  define c0 where "c0 = lontile_c ! nat (cdiv ilon tile_c - lonorig_c)"
  define c1 where "c1 = lattile_c ! nat (cdiv ilat tile_c - latorig_c)"
  define b1 where "b1 = new_buffer[0 := Some c0, 1 := Some c1]"
  note tiles = Forward_buffer_tiles [OF assms(1-4), of prec lon2 lat2,
      folded c0_def c1_def, folded b1_def]
  have len1: "length b1 = 26" by (simp add: b1_def new_buffer_length)
  have cells1: "b1 ! 0 = Some c0" "b1 ! 1 = Some c1"
    by (simp_all add: b1_def new_buffer_length nth_list_update)
  have copied: "\<exists>s. buf_copy b (baselen_c + 2 * prec) = Inr s \<and>
             int (length s) = baselen_c + 2 * prec \<and>
             (\<forall>j<nat (baselen_c + 2 * prec). s ! j = the (b ! j))"
    if "length b = 26" and "\<forall>j<nat (baselen_c + 2 * prec). b ! j \<noteq> None" for b
  proof -
    from assms(5,6) that(1) have bounds: "0 \<le> baselen_c + 2 * prec"
      "baselen_c + 2 * prec \<le> int (length b)"
      by (simp_all add: baselen_c_def)
    from buf_copy_written [OF bounds that(2)]
    have "buf_copy b (baselen_c + 2 * prec) = Inr (map the (take (nat (baselen_c + 2 * prec)) b))" .
    moreover have "int (length (map the (take (nat (baselen_c + 2 * prec)) b))) = baselen_c + 2 * prec"
      using bounds by simp
    moreover have "\<forall>j<nat (baselen_c + 2 * prec).
                     map the (take (nat (baselen_c + 2 * prec)) b) ! j = the (b ! j)"
      using bounds by simp
    ultimately show ?thesis by blast
  qed
  show ?thesis
  proof (cases "prec < 0")
    case True
    with assms(5) have p: "prec = -1" by simp
    have "\<forall>j<nat (baselen_c + 2 * prec). b1 ! j \<noteq> None"
      using cells1 by (simp add: p baselen_c_def less_Suc_eq numeral_2_eq_2)
    from copied [OF len1 this] obtain s where
      s: "buf_copy b1 (baselen_c + 2 * prec) = Inr s" "int (length s) = baselen_c + 2 * prec"
      and at: "\<And>j. j < nat (baselen_c + 2 * prec) \<Longrightarrow> s ! j = the (b1 ! j)"
      by blast
    from True tiles s(1) have "Forward_buffer ilon ilat prec lon2 lat2 = Inr s"
      by (simp add: ebind_Inr)
    moreover from at [of 0] at [of 1] cells1 have "s ! 0 = c0" "s ! 1 = c1"
      by (simp_all add: p baselen_c_def)
    ultimately show ?thesis using s(2) True
      by (auto simp: c0_def c1_def)
  next
    case False
    with assms(7) have rem: "0 \<le> crem ilon tile_c" "0 \<le> crem ilat tile_c" and p0: "0 \<le> prec"
      by simp_all
    define c2 where "c2 = degrees_c ! nat (crem ilon tile_c)"
    define c3 where "c3 = degrees_c ! nat (crem ilat tile_c)"
    define b3 where "b3 = b1[2 := Some c2, 3 := Some c3]"
    have len3: "length b3 = 26" by (simp add: b3_def len1)
    have cells3: "b3 ! 0 = Some c0" "b3 ! 1 = Some c1" "b3 ! 2 = Some c2" "b3 ! 3 = Some c3"
      using cells1 by (simp_all add: b3_def len1 nth_list_update)
    have written3: "b3 ! j \<noteq> None" if "j < 4" for j
    proof -
      from that have "j = 0 \<or> j = 1 \<or> j = 2 \<or> j = 3" by linarith
      with cells3 show ?thesis by auto
    qed
    have w2: "buf_write b1 2 c = Inr (b1[2 := Some c])" for c
      by (simp add: buf_write_def len1)
    have w3: "buf_write (b1[2 := Some c]) 3 c' = Inr (b1[2 := Some c, 3 := Some c'])" for c c'
      by (simp add: buf_write_def len1)
    from tiles p0 have degs: "Forward_buffer ilon ilat prec lon2 lat2 =
       ebind
         (if prec > 0 then
              (let lon3 = (if lon2 = 1 then lon2 - epsilon / 2 else lon2);
                   lat3 = (if lat2 = 1 then lat2 - epsilon / 2 else lat2);
                   mult = of_int base_c ^ nat (prec - 2) * of_int mult2_c;
                   x = nat \<lfloor>mult * lon3\<rfloor>;
                   y = nat \<lfloor>mult * lat3\<rfloor>
               in digit_loop (nat prec) prec x y b3)
            else Inr b3)
         (\<lambda>b. buf_copy b (baselen_c + 2 * prec))"
      by (simp only: if_True str_at_degrees [OF rem(1)] str_at_degrees [OF rem(2)]
          ebind_Inr w2 w3 c2_def [symmetric] c3_def [symmetric] b3_def [symmetric])
    show ?thesis
    proof (cases "prec > 0")
      case False
      with p0 have p: "prec = 0" by simp
      have "\<forall>j<nat (baselen_c + 2 * prec). b3 ! j \<noteq> None"
        using written3 by (simp add: p baselen_c_def)
      from copied [OF len3 this] obtain s where
        s: "buf_copy b3 (baselen_c + 2 * prec) = Inr s" "int (length s) = baselen_c + 2 * prec"
        and at: "\<And>j. j < nat (baselen_c + 2 * prec) \<Longrightarrow> s ! j = the (b3 ! j)"
        by blast
      from degs s(1) p have "Forward_buffer ilon ilat prec lon2 lat2 = Inr s"
        by (simp add: ebind_Inr)
      moreover from at [of 0] at [of 1] at [of 2] at [of 3] cells3
      have "s ! 0 = c0" "s ! 1 = c1" "s ! 2 = c2" "s ! 3 = c3"
        by (simp_all add: p baselen_c_def)
      ultimately show ?thesis using s(2) p
        by (auto simp: c0_def c1_def c2_def c3_def)
    next
      case True
      define x where "x = minutes_of prec lon2"
      define y where "y = minutes_of prec lat2"
      from digit_loop_cells [OF len3 p0 assms(6) order_refl, of x y]
      obtain b' where run: "digit_loop (nat prec) prec x y b3 = Inr b'" and len': "length b' = 26"
        and digits: "\<And>j. j < nat prec \<Longrightarrow>
                       b' ! (4 + j) = Some (digits_c ! digit_at (nat prec) x j) \<and>
                       b' ! (4 + nat prec + j) = Some (digits_c ! digit_at (nat prec) y j)"
        and others: "\<And>j. \<not> covered (nat prec) (nat prec) j \<Longrightarrow> b' ! j = b3 ! j"
        by blast
      have letters: "b' ! j = b3 ! j" if "j < 4" for j
      proof (rule others)
        from that True show "\<not> covered (nat prec) (nat prec) j"
          by (simp add: covered_def)
      qed
      have written: "b' ! j \<noteq> None" if "j < nat (baselen_c + 2 * prec)" for j
      proof (cases "j < 4")
        case True
        with letters written3 show ?thesis by simp
      next
        case False
        show ?thesis
        proof (cases "j < 4 + nat prec")
          case True
          with False digits [of "j - 4"] show ?thesis by simp
        next
          case False
          with that p0 have "j - 4 - nat prec < nat prec" "j = 4 + nat prec + (j - 4 - nat prec)"
            by (simp_all add: baselen_c_def)
          with digits [of "j - 4 - nat prec"] show ?thesis by simp
        qed
      qed
      then have "\<forall>j<nat (baselen_c + 2 * prec). b' ! j \<noteq> None" by blast
      from copied [OF len' this] obtain s where
        s: "buf_copy b' (baselen_c + 2 * prec) = Inr s" "int (length s) = baselen_c + 2 * prec"
        and at: "\<And>j. j < nat (baselen_c + 2 * prec) \<Longrightarrow> s ! j = the (b' ! j)"
        by blast
      from True run have "(let lon3 = (if lon2 = 1 then lon2 - epsilon / 2 else lon2);
                   lat3 = (if lat2 = 1 then lat2 - epsilon / 2 else lat2);
                   mult = of_int base_c ^ nat (prec - 2) * of_int mult2_c;
                   x = nat \<lfloor>mult * lon3\<rfloor>;
                   y = nat \<lfloor>mult * lat3\<rfloor>
               in digit_loop (nat prec) prec x y b3) = Inr b'"
        by (simp add: Let_def x_def y_def minutes_of_def)
      with degs True s(1) have ret: "Forward_buffer ilon ilat prec lon2 lat2 = Inr s"
        by (simp only: if_True ebind_Inr)
      from True have four: "(0::nat) < nat (baselen_c + 2 * prec)" "(1::nat) < nat (baselen_c + 2 * prec)"
        "(2::nat) < nat (baselen_c + 2 * prec)" "(3::nat) < nat (baselen_c + 2 * prec)"
        by (simp_all add: baselen_c_def)
      from at [OF four(1)] at [OF four(2)] at [OF four(3)] at [OF four(4)] letters cells3
      have first: "s ! 0 = c0" "s ! 1 = c1" "s ! 2 = c2" "s ! 3 = c3"
        by simp_all
      have rest: "s ! (4 + j) = digits_c ! digit_at (nat prec) x j \<and>
                  s ! (4 + nat prec + j) = digits_c ! digit_at (nat prec) y j"
        if "j < nat prec" for j
      proof -
        from that p0 have "4 + j < nat (baselen_c + 2 * prec)"
          "4 + nat prec + j < nat (baselen_c + 2 * prec)"
          by (simp_all add: baselen_c_def)
        from at [OF this(1)] at [OF this(2)] digits [OF that] show ?thesis by simp
      qed
      show ?thesis
      proof (intro exI conjI impI allI)
        show "Forward_buffer ilon ilat prec lon2 lat2 = Inr s" by (rule ret)
        show "int (length s) = baselen_c + 2 * prec" by (rule s(2))
        show "s ! 0 = lontile_c ! nat (cdiv ilon tile_c - lonorig_c)"
          using first(1) by (simp add: c0_def)
        show "s ! 1 = lattile_c ! nat (cdiv ilat tile_c - latorig_c)"
          using first(2) by (simp add: c1_def)
        show "s ! 2 = degrees_c ! nat (crem ilon tile_c)"
          using first(3) by (simp add: c2_def)
        show "s ! 3 = degrees_c ! nat (crem ilat tile_c)"
          using first(4) by (simp add: c3_def)
      next
        fix j assume "j < nat prec"
        from rest [OF this]
        show "s ! (4 + j) = digits_c ! digit_at (nat prec) (minutes_of prec lon2) j"
          and "s ! (4 + nat prec + j) = digits_c ! digit_at (nat prec) (minutes_of prec lat2) j"
          by (simp_all add: x_def y_def)
      qed
    qed
  qed
qed

lemma whole_lon_range: "-180 \<le> whole_lon lo \<and> whole_lon lo < 180"
proof -
  from AngNormalize_range [of lo]
  have "(-180::real) \<le> AngNormalize lo" and "AngNormalize lo < 180" by simp_all
  then have "-180 \<le> \<lfloor>AngNormalize lo\<rfloor>" and "\<lfloor>AngNormalize lo\<rfloor> < 180"
    by (simp_all add: le_floor_iff floor_less_iff)
  then show ?thesis by (simp add: whole_lon_def)
qed

lemma whole_lat_range:
  assumes "\<bar>la\<bar> \<le> 90"
  shows "-90 \<le> whole_lat la \<and> whole_lat la < 90"
proof -
  from assms have "(-90::real) \<le> la" by simp
  then have "-90 \<le> \<lfloor>la\<rfloor>" by (simp add: le_floor_iff)
  then show ?thesis by (simp add: whole_lat_def maxlat_c_def)
qed

text \<open>
  The indices of \<open>Forward\<close> that are in bounds for every finite input with
  \<open>|lat| \<le> 90\<close>: the two tile indices. The remainders used for the degree letters
  lie strictly between \<open>-15\<close> and \<open>15\<close>, and are negative for a negative whole degree
  that is not a multiple of 15.
\<close>

lemma Georef_Forward_tile_indices:
  assumes "\<bar>la\<bar> \<le> 90"
  shows "0 \<le> cdiv (whole_lon lo) tile_c - lonorig_c"
    and "cdiv (whole_lon lo) tile_c - lonorig_c < int (length lontile_c)"
    and "0 \<le> cdiv (whole_lat la) tile_c - latorig_c"
    and "cdiv (whole_lat la) tile_c - latorig_c < int (length lattile_c)"
proof -
  from whole_lon_range [of lo] have "-180 \<le> whole_lon lo" "whole_lon lo < 180" by simp_all
  from cdiv_lon_bounds [OF this]
  show "0 \<le> cdiv (whole_lon lo) tile_c - lonorig_c"
    and "cdiv (whole_lon lo) tile_c - lonorig_c < int (length lontile_c)"
    by (simp_all add: tile_c_def lonorig_c_def lontile_c_def cdiv_def)
  from whole_lat_range [OF assms] have "-90 \<le> whole_lat la" "whole_lat la < 90" by simp_all
  from cdiv_lat_bounds [OF this]
  show "0 \<le> cdiv (whole_lat la) tile_c - latorig_c"
    and "cdiv (whole_lat la) tile_c - latorig_c < int (length lattile_c)"
    by (simp_all add: tile_c_def latorig_c_def lattile_c_def cdiv_def)
qed

lemma Georef_Forward_fin_string:
  assumes "\<bar>la\<bar> \<le> 90"
    and "clamp_prec prec < 0 \<or>
         (0 \<le> crem (whole_lon lo) tile_c \<and> 0 \<le> crem (whole_lat la) tile_c)"
  shows "\<exists>s. Georef_Forward_fin la lo prec = Inr s \<and>
             int (length s) = baselen_c + 2 * clamp_prec prec \<and>
             s ! 0 = lontile_c ! nat (cdiv (whole_lon lo) tile_c - lonorig_c) \<and>
             s ! 1 = lattile_c ! nat (cdiv (whole_lat la) tile_c - latorig_c) \<and>
             (0 \<le> clamp_prec prec \<longrightarrow>
                s ! 2 = degrees_c ! nat (crem (whole_lon lo) tile_c) \<and>
                s ! 3 = degrees_c ! nat (crem (whole_lat la) tile_c)) \<and>
             (0 < clamp_prec prec \<longrightarrow>
                (\<forall>j<nat (clamp_prec prec).
                   s ! (4 + j) =
                     digits_c ! digit_at (nat (clamp_prec prec))
                       (minutes_of (clamp_prec prec) (AngNormalize lo - of_int (whole_lon lo))) j \<and>
                   s ! (4 + nat (clamp_prec prec) + j) =
                     digits_c ! digit_at (nat (clamp_prec prec))
                       (minutes_of (clamp_prec prec) (la - of_int (whole_lat la))) j))"
proof -
  from whole_lon_range [of lo] have lon: "-180 \<le> whole_lon lo" "whole_lon lo < 180" by simp_all
  from whole_lat_range [OF assms(1)] have lat: "-90 \<le> whole_lat la" "whole_lat la < 90"
    by simp_all
  from clamp_prec_range [of prec] have p: "-1 \<le> clamp_prec prec" "clamp_prec prec \<le> 11"
    by simp_all
  from Forward_buffer_succeeds [OF lon lat p assms(2),
      of "AngNormalize lo - of_int (whole_lon lo)" "la - of_int (whole_lat la)"]
  show ?thesis
    by (simp only: Georef_Forward_fin_def Let_def)
qed

lemma Georef_Forward_fin_returns:
  assumes "\<bar>la\<bar> \<le> 90"
    and "clamp_prec prec < 0 \<or>
         (0 \<le> crem (whole_lon lo) tile_c \<and> 0 \<le> crem (whole_lat la) tile_c)"
  shows "\<exists>s. Georef_Forward_fin la lo prec = Inr s \<and>
             int (length s) = 4 + 2 * clamp_prec prec"
proof -
  from Georef_Forward_fin_string [OF assms] obtain s where
    "Georef_Forward_fin la lo prec = Inr s" "int (length s) = baselen_c + 2 * clamp_prec prec"
    by blast
  then show ?thesis by (simp add: baselen_c_def)
qed

lemma Georef_Forward_fin_undefined:
  assumes "\<bar>la\<bar> \<le> 90" and "0 \<le> clamp_prec prec"
    and "crem (whole_lon lo) tile_c < 0 \<or> crem (whole_lat la) tile_c < 0"
  shows "\<exists>i. -15 < i \<and> i < 0 \<and> Georef_Forward_fin la lo prec = Inl (IndexError degrees_c i)"
proof -
  from whole_lon_range [of lo] have lon: "-180 \<le> whole_lon lo" "whole_lon lo < 180" by simp_all
  from whole_lat_range [OF assms(1)] have lat: "-90 \<le> whole_lat la" "whole_lat la < 90"
    by simp_all
  show ?thesis
  proof (cases "crem (whole_lon lo) tile_c < 0")
    case True
    from Forward_buffer_fails_lon [OF lon lat assms(2) True]
    have "Georef_Forward_fin la lo prec = Inl (IndexError degrees_c (crem (whole_lon lo) tile_c))"
      by (simp add: Georef_Forward_fin_def Let_def)
    with True crem_tile_bounds [of "whole_lon lo"] show ?thesis
      by (auto simp: tile_c_def)
  next
    case False
    with assms(3) have neg: "crem (whole_lat la) tile_c < 0" and pos: "0 \<le> crem (whole_lon lo) tile_c"
      by simp_all
    from Forward_buffer_fails_lat [OF lon lat assms(2) pos neg]
    have "Georef_Forward_fin la lo prec = Inl (IndexError degrees_c (crem (whole_lat la) tile_c))"
      by (simp add: Georef_Forward_fin_def Let_def)
    with neg crem_tile_bounds [of "whole_lat la"] show ?thesis
      by (auto simp: tile_c_def)
  qed
qed

text \<open>
  So the only failure of \<open>Forward\<close> below its guards is the read of the table of degree
  letters at a negative index: no tile index, digit index or buffer write is out of
  range, and no cell is copied out unwritten.
\<close>

lemma Georef_Forward_fin_failure:
  assumes "\<bar>la\<bar> \<le> 90" and "Georef_Forward_fin la lo prec = Inl e"
  shows "\<exists>i. -15 < i \<and> i < 0 \<and> e = IndexError degrees_c i"
proof (cases "clamp_prec prec < 0 \<or>
         (0 \<le> crem (whole_lon lo) tile_c \<and> 0 \<le> crem (whole_lat la) tile_c)")
  case True
  from Georef_Forward_fin_returns [OF assms(1) True] assms(2) show ?thesis by auto
next
  case False
  then have "0 \<le> clamp_prec prec"
    and "crem (whole_lon lo) tile_c < 0 \<or> crem (whole_lat la) tile_c < 0" by auto
  from Georef_Forward_fin_undefined [OF assms(1) this] assms(2) show ?thesis by auto
qed

text \<open>
  C2 at latitude 0.5, longitude -0.5, precision 0. The claim has the index
  \<open>ilon % 15\<close> of the degree letter in \<open>[0, 15)\<close>, in particular for a negative longitude
  that is not a multiple of 15. Here \<open>ilon = floor(-0.5) = -1\<close> and the remainder of
  the truncating division is \<open>-1\<close>: \<open>degrees_[-1]\<close> is read.
\<close>

theorem Georef_Forward_degree_index:
  "whole_lon (-1 / 2) = -1 \<and>
   crem (whole_lon (-1 / 2)) tile_c = -1 \<and>
   Georef_Forward (Fin (1 / 2)) (Fin (-1 / 2)) 0 = Inl (IndexError degrees_c (-1))"
  by (simp add: forward_eval)

text \<open>
  C6 at latitude -0.5, longitude 10, precision request 1 (and 2). The claim has a
  string of \<open>4 + 2 * 2\<close> characters returned. The request is clamped to 2, and then
  \<open>ilat = -1\<close> gives the remainder \<open>-1\<close> as the index of the latitude's degree
  letter: the call has undefined behaviour where a string was promised.
\<close>

theorem Georef_Forward_length_undefined:
  "clamp_prec 1 = 2 \<and>
   Georef_Forward (Fin (-1 / 2)) (Fin 10) 1 = Inl (IndexError degrees_c (-1)) \<and>
   Georef_Forward (Fin (-1 / 2)) (Fin 10) 2 = Inl (IndexError degrees_c (-1))"
  by (simp add: forward_eval)

section \<open>Georef: the round trip where no remainder is negative\<close>

subsection \<open>Reading back a letter or digit of a table\<close>

lemma find_index_from_nth:
  "distinct s \<Longrightarrow> k < length s \<Longrightarrow> find_index_from (s ! k) s i = i + int k"
proof (induction s arbitrary: k i)
  case Nil
  then show ?case by simp
next
  case (Cons c s)
  show ?case
  proof (cases k)
    case 0
    then show ?thesis by simp
  next
    case (Suc k')
    with Cons.prems have "s ! k' \<in> set s" and "c \<notin> set s" and "distinct s" and "k' < length s"
      by simp_all
    then have "c \<noteq> s ! k'" by blast
    with Cons.IH [OF \<open>distinct s\<close> \<open>k' < length s\<close>, of "i + 1"] Suc show ?thesis
      by simp
  qed
qed

lemma lookup_nth:
  assumes "distinct s" and "\<forall>c\<in>set s. toupper c = c" and "k < length s"
  shows "lookup s (s ! k) = int k"
proof -
  from assms(2,3) have "toupper (s ! k) = s ! k" by simp
  with find_index_from_nth [OF assms(1,3), of 0] show ?thesis
    by (simp add: lookup_def)
qed

lemma tables_distinct:
  "distinct lontile_c" "distinct lattile_c" "distinct degrees_c" "distinct digits_c"
  by (simp_all add: lontile_c_def lattile_c_def degrees_c_def digits_c_def)

lemma tables_upper:
  "\<forall>c\<in>set lontile_c. toupper c = c" "\<forall>c\<in>set lattile_c. toupper c = c"
  "\<forall>c\<in>set degrees_c. toupper c = c" "\<forall>c\<in>set digits_c. toupper c = c"
  by (simp_all add: lontile_c_def lattile_c_def degrees_c_def digits_c_def toupper_def)

lemma tables_length:
  "length lontile_c = 24" "length lattile_c = 12" "length degrees_c = 15" "length digits_c = 10"
  by (simp_all add: lontile_c_def lattile_c_def degrees_c_def digits_c_def)

lemma lontile_not_I: "k < 24 \<Longrightarrow> toupper (lontile_c ! k) \<noteq> CHR ''I''"
proof -
  assume "k < 24"
  then have "lontile_c ! k \<in> set lontile_c" by (simp add: tables_length)
  moreover have "\<forall>c\<in>set lontile_c. toupper c \<noteq> CHR ''I''"
    by (simp add: lontile_c_def toupper_def)
  ultimately show ?thesis by blast
qed

lemma digit_at_less: "digit_at p x j < 10"
  by (simp add: digit_at_def)

lemma lookup_digit: "lookup digits_c (digits_c ! digit_at p x j) = int (digit_at p x j)"
  by (rule lookup_nth) (simp_all add: tables_distinct tables_upper tables_length digit_at_less)

lemma digit_in_table: "digits_c ! digit_at p x j \<in> set digits_c"
  by (simp add: tables_length digit_at_less)

subsection \<open>The digits read back\<close>

lemma minute_cells_Suc: "minute_cells (Suc i) = (if i = 0 then 6 else 10) * minute_cells i"
  by (cases i) (simp_all add: minute_cells_def)

lemma minute_cells_pos: "0 < minute_cells i"
  by (simp add: minute_cells_def)

lemma leading_digit:
  assumes "0 < p" and "x < minute_cells p"
  shows "x div 10 ^ (p - 1) < 6"
proof -
  from assms have "x < 6 * 10 ^ (p - 1)" by (simp add: minute_cells_def)
  then show ?thesis by (rule less_mult_imp_div_less)
qed

lemma digit_step:
  assumes "i < p" and "x < minute_cells p"
  shows "(if i = 0 then 6 else 10) * (x div 10 ^ (p - i)) + digit_at p x i = x div 10 ^ (p - 1 - i)"
proof -
  define q where "q = x div 10 ^ (p - 1 - i)"
  from assms(1) have "p - i = Suc (p - 1 - i)" by simp
  then have up: "x div 10 ^ (p - i) = q div 10"
    by (simp only: q_def power_Suc2 div_mult2_eq)
  have d: "digit_at p x i = q mod 10" by (simp add: digit_at_def q_def)
  have "(if i = 0 then 6 else 10) * (q div 10) + q mod 10 = q"
  proof (cases "i = 0")
    case True
    with assms leading_digit [of p x] have "q < 6" by (simp add: q_def)
    then have "q div 10 = 0" "q mod 10 = q" by simp_all
    with True show ?thesis by simp
  next
    case False
    then show ?thesis by simp
  qed
  then show ?thesis by (simp only: up d q_def)
qed

lemma first_digit_less:
  assumes "0 < p" and "x < minute_cells p"
  shows "digit_at p x 0 < 6"
proof -
  from leading_digit [OF assms] have "x div 10 ^ (p - 1) < 6" .
  then show ?thesis by (simp add: digit_at_def)
qed

text \<open>
  On a string whose characters from position 4 on are the \<open>p\<close> digits of \<open>x\<close> followed by
  the \<open>p\<close> digits of \<open>y\<close>, both below \<open>6 * 10^(p-1)\<close>, the loop of \<open>Reverse\<close> throws
  nothing and rebuilds \<open>x\<close> and \<open>y\<close>.
\<close>

lemma minutes_loop_digits:
  assumes digits: "\<forall>j<p. s ! (4 + j) = digits_c ! digit_at p x j \<and>
                          s ! (4 + p + j) = digits_c ! digit_at p y j"
    and len: "length s = 4 + 2 * p"
    and x: "x < minute_cells p" and y: "y < minute_cells p"
    and "i + n = p"
  shows "minutes_loop s (int p) n (int i)
           (u * real (minute_cells i),
            a * real (minute_cells i) + real (x div 10 ^ (p - i)),
            b * real (minute_cells i) + real (y div 10 ^ (p - i)))
         = Inr (u * real (minute_cells p),
                a * real (minute_cells p) + real x,
                b * real (minute_cells p) + real y)"
  using \<open>i + n = p\<close>
proof (induction n arbitrary: i)
  case 0
  then show ?case by simp
next
  case (Suc n)
  then have i: "i < p" and next_i: "Suc i + n = p" by simp_all
  define m :: int where "m = (if int i \<noteq> 0 then base_c else 6)"
  define dx where "dx = digit_at p x i"
  define dy where "dy = digit_at p y i"
  from i len have rx: "str_at s (baselen_c + int i) = Inr (s ! (4 + i))"
    and ry: "str_at s (baselen_c + int i + int p) = Inr (s ! (4 + p + i))"
    by (simp_all add: str_at_def baselen_c_def nat_add_distrib add.commute add.left_commute)
  from digits i have sx: "s ! (4 + i) = digits_c ! dx" and sy: "s ! (4 + p + i) = digits_c ! dy"
    by (simp_all add: dx_def dy_def)
  have lx: "lookup digits_c (digits_c ! dx) = int dx"
    and ly: "lookup digits_c (digits_c ! dy) = int dy"
    by (simp_all add: dx_def dy_def lookup_digit)
  have m: "m = (if i = 0 then 6 else 10)" by (simp add: m_def base_c_def)
  have ok: "\<not> \<not> (int i \<noteq> 0 \<or> (int dx < m \<and> int dy < m))"
  proof (cases "i = 0")
    case True
    with i have "0 < p" by simp
    from first_digit_less [OF this x] first_digit_less [OF this y] True show ?thesis
      by (simp add: m dx_def dy_def)
  next
    case False
    then show ?thesis by simp
  qed
  have step: "minutes_loop s (int p) (Suc n) (int i) (u', lo, la) =
                minutes_loop s (int p) n (int i + 1)
                  (u' * of_int m, of_int m * lo + of_int (int dx), of_int m * la + of_int (int dy))"
    for u' lo la
    using ok
    by (simp only: minutes_loop.simps Let_def rx ry ebind_Inr sx sy lx ly m_def [symmetric] if_False)
  have cells: "real (minute_cells (Suc i)) = of_int m * real (minute_cells i)"
    by (simp add: minute_cells_Suc m)
  have vx: "real (x div 10 ^ (p - Suc i)) = of_int m * real (x div 10 ^ (p - i)) + real dx"
  proof -
    from digit_step [OF i x]
    have "real ((if i = 0 then 6 else 10) * (x div 10 ^ (p - i)) + digit_at p x i)
            = real (x div 10 ^ (p - 1 - i))"
      by (rule arg_cong)
    then show ?thesis by (cases "i = 0") (simp_all add: m dx_def)
  qed
  have vy: "real (y div 10 ^ (p - Suc i)) = of_int m * real (y div 10 ^ (p - i)) + real dy"
  proof -
    from digit_step [OF i y]
    have "real ((if i = 0 then 6 else 10) * (y div 10 ^ (p - i)) + digit_at p y i)
            = real (y div 10 ^ (p - 1 - i))"
      by (rule arg_cong)
    then show ?thesis by (cases "i = 0") (simp_all add: m dy_def)
  qed
  have args: "u * real (minute_cells i) * of_int m = u * real (minute_cells (Suc i))"
    "of_int m * (a * real (minute_cells i) + real (x div 10 ^ (p - i))) + of_int (int dx)
       = a * real (minute_cells (Suc i)) + real (x div 10 ^ (p - Suc i))"
    "of_int m * (b * real (minute_cells i) + real (y div 10 ^ (p - i))) + of_int (int dy)
       = b * real (minute_cells (Suc i)) + real (y div 10 ^ (p - Suc i))"
    by (simp_all add: cells vx vy algebra_simps)
  have "int i + 1 = int (Suc i)" by simp
  with Suc.IH [OF next_i] show ?case
    by (simp only: step args)
qed

subsection \<open>The decode of what Forward writes\<close>

lemma Reverse_precision_of_length:
  assumes "int (length s) = baselen_c + 2 * p" and "-1 \<le> p"
  shows "cdiv (2 + int (length s) - baselen_c) 2 - 1 = p"
    and "crem (int (length s)) 2 = 0"
proof -
  from assms have "0 \<le> 2 + int (length s) - baselen_c" by simp
  then show "cdiv (2 + int (length s) - baselen_c) 2 - 1 = p"
    by (simp add: cdiv_nonneg assms(1))
  from assms have "0 \<le> int (length s)" "int (length s) mod 2 = 0"
    by (simp_all add: baselen_c_def)
  then show "crem (int (length s)) 2 = 0"
    by (simp only: crem_nonneg zero_less_numeral)
qed

lemma Reverse_cells_tiles:
  assumes len: "int (length s) = baselen_c + 2 * (-1)"
    and k0: "s ! 0 = lontile_c ! k0" "k0 < 24" and k1: "s ! 1 = lattile_c ! k1" "k1 < 12"
  shows "Georef_Reverse_cells s =
           Inr ((1, of_int (int k0 + lonorig_c), of_int (int k1 + latorig_c)), -1)"
proof -
  from Reverse_precision_of_length [OF len]
  have prec: "cdiv (2 + int (length s) - baselen_c) 2 - 1 = -1" by simp
  have l0: "lookup lontile_c (s ! 0) = int k0" and l1: "lookup lattile_c (s ! 1) = int k1"
    using k0 k1 by (simp_all add: lookup_nth tables_distinct tables_upper tables_length)
  from len have short: "\<not> int (length s) < baselen_c - 2" "\<not> int (length s) > 2"
    by (simp_all add: baselen_c_def)
  from prec l0 l1 short show ?thesis
    by (simp add: Georef_Reverse_cells_def Let_def)
qed

lemma Reverse_cells_degrees:
  assumes len: "int (length s) = baselen_c + 2 * 0"
    and k0: "s ! 0 = lontile_c ! k0" "k0 < 24" and k1: "s ! 1 = lattile_c ! k1" "k1 < 12"
    and k2: "s ! 2 = degrees_c ! k2" "k2 < 15" and k3: "s ! 3 = degrees_c ! k3" "k3 < 15"
  shows "Georef_Reverse_cells s =
           Inr ((15, of_int (int k0 + lonorig_c) * 15 + of_int (int k2),
                     of_int (int k1 + latorig_c) * 15 + of_int (int k3)), 0)"
proof -
  from Reverse_precision_of_length [OF len]
  have prec: "cdiv (2 + int (length s) - baselen_c) 2 - 1 = 0" by simp
  have l0: "lookup lontile_c (s ! 0) = int k0" and l1: "lookup lattile_c (s ! 1) = int k1"
    and l2: "lookup degrees_c (s ! 2) = int k2" and l3: "lookup degrees_c (s ! 3) = int k3"
    using k0 k1 k2 k3 by (simp_all add: lookup_nth tables_distinct tables_upper tables_length)
  from len have long: "\<not> int (length s) < baselen_c - 2" "int (length s) > 2"
    "\<not> int (length s) < 4"
    by (simp_all add: baselen_c_def)
  from prec l0 l1 l2 l3 long show ?thesis
    by (simp add: Georef_Reverse_cells_def Let_def tile_c_def)
qed

lemma Reverse_cells_minutes:
  assumes len: "int (length s) = baselen_c + 2 * p" and p: "2 \<le> p"
    and k0: "s ! 0 = lontile_c ! k0" "k0 < 24" and k1: "s ! 1 = lattile_c ! k1" "k1 < 12"
    and k2: "s ! 2 = degrees_c ! k2" "k2 < 15" and k3: "s ! 3 = degrees_c ! k3" "k3 < 15"
    and digits: "\<forall>j<nat p. s ! (4 + j) = digits_c ! digit_at (nat p) x j \<and>
                              s ! (4 + nat p + j) = digits_c ! digit_at (nat p) y j"
    and x: "x < minute_cells (nat p)" and y: "y < minute_cells (nat p)"
  shows "Georef_Reverse_cells s =
           Inr ((15 * real (minute_cells (nat p)),
                 (of_int (int k0 + lonorig_c) * 15 + of_int (int k2)) * real (minute_cells (nat p))
                   + real x,
                 (of_int (int k1 + latorig_c) * 15 + of_int (int k3)) * real (minute_cells (nat p))
                   + real y), p)"
proof -
  from p have p1: "-1 \<le> p" by simp
  from Reverse_precision_of_length [OF len p1]
  have prec: "cdiv (2 + int (length s) - baselen_c) 2 - 1 = p"
    and even: "crem (int (length s)) 2 = 0" by simp_all
  have l0: "lookup lontile_c (s ! 0) = int k0" and l1: "lookup lattile_c (s ! 1) = int k1"
    and l2: "lookup degrees_c (s ! 2) = int k2" and l3: "lookup degrees_c (s ! 3) = int k3"
    using k0 k1 k2 k3 by (simp_all add: lookup_nth tables_distinct tables_upper tables_length)
  from len p have long: "\<not> int (length s) < baselen_c - 2" "int (length s) > 2"
    "\<not> int (length s) < 4" and nlen: "length s = 4 + 2 * nat p"
    by (simp_all add: baselen_c_def)
  have all_digits: "\<not> non_digit_from s baselen_c"
  proof -
    have "c \<in> set digits_c" if "c \<in> set (drop 4 s)" for c
    proof -
      from that obtain j where j: "j < length (drop 4 s)" and c: "c = drop 4 s ! j"
        by (auto simp: in_set_conv_nth)
      from j nlen have j2: "j < 2 * nat p" by simp
      from c nlen j have cs: "c = s ! (4 + j)" by simp
      show ?thesis
      proof (cases "j < nat p")
        case True
        with digits cs show ?thesis by (simp add: digit_in_table)
      next
        case False
        with j2 have less: "j - nat p < nat p" and split: "4 + nat p + (j - nat p) = 4 + j"
          by simp_all
        from digits less
        have "s ! (4 + nat p + (j - nat p)) = digits_c ! digit_at (nat p) y (j - nat p)"
          by blast
        then have "c = digits_c ! digit_at (nat p) y (j - nat p)"
          by (simp only: split cs)
        then show ?thesis by (simp only: digit_in_table)
      qed
    qed
    then show ?thesis
      by (auto simp: non_digit_from_def baselen_c_def list_ex_iff)
  qed
  have small: "x div 10 ^ nat p = 0" "y div 10 ^ nat p = 0"
  proof -
    from p obtain k where k: "nat p = Suc k" by (cases "nat p") simp_all
    have "minute_cells (Suc k) \<le> 10 ^ Suc k" by (simp add: minute_cells_def)
    with x y k show "x div 10 ^ nat p = 0" "y div 10 ^ nat p = 0" by simp_all
  qed
  have ip: "int (nat p) = p" using p by simp
  have mc0: "real (minute_cells 0) = 1" by (simp add: minute_cells_def)
  have zx: "real (x div 10 ^ (nat p - 0)) = 0" and zy: "real (y div 10 ^ (nat p - 0)) = 0"
    using small by simp_all
  from minutes_loop_digits [OF digits nlen x y, of 0 "nat p" 15
      "of_int (int k0 + lonorig_c) * 15 + of_int (int k2)"
      "of_int (int k1 + latorig_c) * 15 + of_int (int k3)"]
  have loop: "minutes_loop s p (nat p) 0
           (15, of_int (int k0 + lonorig_c) * 15 + of_int (int k2),
                of_int (int k1 + latorig_c) * 15 + of_int (int k3))
         = Inr (15 * real (minute_cells (nat p)),
                (of_int (int k0 + lonorig_c) * 15 + of_int (int k2)) * real (minute_cells (nat p))
                   + real x,
                (of_int (int k1 + latorig_c) * 15 + of_int (int k3)) * real (minute_cells (nat p))
                   + real y)"
    by (simp only: ip of_nat_0 mc0 zx zy mult_1_right add_0_right)
  from p have ppos: "p > 0" "p \<noteq> 1" by simp_all
  from prec even l0 l1 l2 l3 long all_digits ppos loop show ?thesis
    by (simp add: Georef_Reverse_cells_def Let_def tile_c_def ebind_Inr)
qed

subsection \<open>The residue and its digits\<close>

lemma mult_is_minute_cells:
  assumes "2 \<le> p"
  shows "of_int base_c ^ nat (p - 2) * of_int mult2_c = real (minute_cells (nat p))"
proof -
  from assms have "nat p - 1 = Suc (nat (p - 2))" and "nat p \<noteq> 0" by simp_all
  then show ?thesis
    by (simp add: minute_cells_def base_c_def mult2_c_def)
qed

lemma minute_cells_le:
  assumes "p \<le> 11"
  shows "real (minute_cells (nat p)) \<le> 6 * 10 ^ 10"
proof (cases "nat p = 0")
  case True
  then show ?thesis by (simp add: minute_cells_def)
next
  case False
  from assms have "nat p - 1 \<le> 10" by simp
  then have "(10::real) ^ (nat p - 1) \<le> 10 ^ 10"
    by (intro power_increasing) simp_all
  with False show ?thesis by (simp add: minute_cells_def)
qed

lemma minutes_of_bounds:
  assumes "2 \<le> p" and "p \<le> 11" and "0 \<le> r" and "r \<le> 1"
  shows "minutes_of p r < minute_cells (nat p)"
    and "\<bar>(real (minutes_of p r) + 1 / 2) / real (minute_cells (nat p)) - r\<bar>
           \<le> 1 / (2 * real (minute_cells (nat p)))"
proof -
  define B where "B = real (minute_cells (nat p))"
  have Bpos: "0 < B" by (simp add: B_def minute_cells_pos)
  have mult: "of_int base_c ^ nat (p - 2) * of_int mult2_c = B"
    unfolding B_def by (rule mult_is_minute_cells [OF assms(1)])
  define r' where "r' = (if r = 1 then r - epsilon / 2 else r)"
  have x: "minutes_of p r = nat \<lfloor>B * r'\<rfloor>"
    by (simp only: minutes_of_def mult r'_def)
  have eps: "0 < epsilon / 2" "B * (epsilon / 2) \<le> 1"
  proof -
    show "0 < epsilon / 2" by (simp add: epsilon_def)
    from minute_cells_le [OF assms(2)] have "B \<le> 6 * 10 ^ 10" by (simp add: B_def)
    then have "B * (epsilon / 2) \<le> 6 * 10 ^ 10 * (epsilon / 2)"
      by (intro mult_right_mono) (simp_all add: epsilon_def)
    also have "\<dots> \<le> 1" by (simp add: epsilon_def)
    finally show "B * (epsilon / 2) \<le> 1" .
  qed
  have r'0: "0 \<le> r'" and r'1: "r' < 1"
    using assms(3,4) eps(1) by (auto simp: r'_def epsilon_def)
  have near: "r - r' \<le> 1 / B \<and> r' \<le> r \<and> (r' < r \<longrightarrow> B * r' \<ge> B - 1)"
  proof (cases "r = 1")
    case True
    then have "r - r' = epsilon / 2" by (simp add: r'_def)
    moreover from eps(2) Bpos have "epsilon / 2 \<le> 1 / B" by (simp add: field_simps)
    moreover have "B * r' \<ge> B - 1" using eps(2) True by (simp add: r'_def algebra_simps)
    ultimately show ?thesis using eps(1) by simp
  next
    case False
    then show ?thesis using Bpos by (simp add: r'_def)
  qed
  define f where "f = \<lfloor>B * r'\<rfloor>"
  have f0: "0 \<le> f" using Bpos r'0 by (simp add: f_def)
  have fl: "of_int f \<le> B * r'" and fu: "B * r' < of_int f + 1"
    unfolding f_def by linarith+
  have xf: "real (minutes_of p r) = of_int f" using f0 by (simp add: x f_def)
  from r'1 Bpos have "B * r' < B * 1" by (rule mult_strict_left_mono)
  with fl have below: "of_int f < B" by simp
  then show "minutes_of p r < minute_cells (nat p)"
    using xf by (simp add: B_def)
  have "\<bar>(of_int f + 1 / 2) - B * r\<bar> \<le> 1 / 2"
  proof (cases "r' < r")
    case False
    with near have "r' = r" by simp
    with fl fu have "of_int f \<le> B * r" "B * r < of_int f + 1" by simp_all
    then show ?thesis by linarith
  next
    case True
    with near have low: "B - 1 \<le> B * r'" by simp
    from True r'_def have r1: "r = 1" by (simp split: if_splits)
    define Bi where "Bi = int (minute_cells (nat p))"
    have Br: "B = of_int Bi" by (simp add: B_def Bi_def)
    from low fu have "of_int (Bi - 2) < (of_int f :: real)" by (simp add: Br)
    then have "Bi - 2 < f" by (simp only: of_int_less_iff)
    moreover from below have "(of_int f :: real) < of_int Bi" by (simp only: Br)
    then have "f < Bi" by (simp only: of_int_less_iff)
    ultimately have "f = Bi - 1" by simp
    then have "of_int f = B - 1" by (simp add: Br)
    with r1 show ?thesis by simp
  qed
  then have step: "\<bar>(of_int f + 1 / 2) - B * r\<bar> / B \<le> (1 / 2) / B"
    using Bpos by (intro divide_right_mono) simp_all
  have eq: "(of_int f + 1 / 2) / B - r = ((of_int f + 1 / 2) - B * r) / B"
    using Bpos by (simp add: field_simps)
  have "\<bar>(of_int f + 1 / 2) / B - r\<bar> = \<bar>(of_int f + 1 / 2) - B * r\<bar> / B"
    unfolding eq using Bpos by (simp only: abs_divide abs_of_pos)
  also note step
  also have "(1 / 2) / B = 1 / (2 * B)" by simp
  finally have "\<bar>(of_int f + 1 / 2) / B - r\<bar> \<le> 1 / (2 * B)" .
  then show "\<bar>(real (minutes_of p r) + 1 / 2) / real (minute_cells (nat p)) - r\<bar>
           \<le> 1 / (2 * real (minute_cells (nat p)))"
    unfolding xf B_def .
qed

subsection \<open>The round trip\<close>

lemma Georef_Reverse_center_value:
  assumes "\<not> is_INV s" and "Georef_Reverse_cells s = Inr ((unit, lon1, lat1), q)"
  shows "Georef_Reverse s prec_in True =
           Inr (Fin (15 * (2 * lat1 + 1) / (unit * 2)), Fin (15 * (2 * lon1 + 1) / (unit * 2)), q)"
  using assms by (simp add: Georef_Reverse_def ebind_Inr tile_c_def)

lemma lon_residue:
  "0 \<le> AngNormalize lo - of_int (whole_lon lo)" "AngNormalize lo - of_int (whole_lon lo) < 1"
  unfolding whole_lon_def by linarith+

lemma lat_residue:
  assumes "\<bar>la\<bar> \<le> 90"
  shows "0 \<le> la - of_int (whole_lat la)" "la - of_int (whole_lat la) \<le> 1"
proof -
  have f: "of_int \<lfloor>la\<rfloor> \<le> la" "la < of_int \<lfloor>la\<rfloor> + 1" by linarith+
  from assms have "la \<le> 90" by simp
  then have top: "\<lfloor>la\<rfloor> \<le> 90" by (simp add: floor_le_iff)
  show "0 \<le> la - of_int (whole_lat la)"
    using f(1) by (simp add: whole_lat_def maxlat_c_def min_def)
  show "la - of_int (whole_lat la) \<le> 1"
  proof (cases "\<lfloor>la\<rfloor> \<le> 89")
    case True
    then have "whole_lat la = \<lfloor>la\<rfloor>" by (simp add: whole_lat_def maxlat_c_def)
    then show ?thesis by (simp only:) linarith
  next
    case False
    then have "whole_lat la = 89" by (simp add: whole_lat_def maxlat_c_def)
    with \<open>la \<le> 90\<close> show ?thesis by simp
  qed
qed

lemma whole_split: "of_int (cdiv i tile_c) * 15 + of_int (crem i tile_c) = (of_int i :: real)"
proof -
  have "cdiv i tile_c * 15 + crem i tile_c = i" by (simp add: crem_def tile_c_def)
  then have "(of_int (cdiv i tile_c * 15 + crem i tile_c) :: real) = of_int i" by simp
  then show ?thesis by simp
qed

text \<open>
  Where the whole degrees of longitude and latitude both have a non-negative remainder
  (they are not negative, or are multiples of 15), encoding at any precision request and
  decoding the result with the centre option gives back the clamped precision and a point
  within half a cell of the original on each axis.
\<close>

lemma Georef_round_trip:
  assumes "\<bar>la\<bar> \<le> 90"
    and "0 \<le> crem (whole_lon lo) tile_c" and "0 \<le> crem (whole_lat la) tile_c"
  shows "\<exists>s lat' lon'.
           Georef_Forward (Fin la) (Fin lo) prec = Inr s \<and>
           Georef_Reverse s prec_in True = Inr (Fin lat', Fin lon', clamp_prec prec) \<and>
           \<bar>lat' - la\<bar> \<le> cell_size (clamp_prec prec) / 2 \<and>
           \<bar>lon' - AngNormalize lo\<bar> \<le> cell_size (clamp_prec prec) / 2"
proof -
  define q where "q = clamp_prec prec"
  define ilon where "ilon = whole_lon lo"
  define ilat where "ilat = whole_lat la"
  define lon2 where "lon2 = AngNormalize lo - of_int ilon"
  define lat2 where "lat2 = la - of_int ilat"
  define k0 where "k0 = nat (cdiv ilon tile_c - lonorig_c)"
  define k1 where "k1 = nat (cdiv ilat tile_c - latorig_c)"
  define k2 where "k2 = nat (crem ilon tile_c)"
  define k3 where "k3 = nat (crem ilat tile_c)"
  from clamp_prec_range [of prec] have q: "-1 \<le> q" "q \<le> 11" "q \<noteq> 1"
    by (simp_all add: q_def)
  have rem: "q < 0 \<or> (0 \<le> crem ilon tile_c \<and> 0 \<le> crem ilat tile_c)"
    using assms(2,3) by (simp add: ilon_def ilat_def)
  from Georef_Forward_fin_string [OF assms(1), of prec lo]
    rem [unfolded q_def ilon_def ilat_def]
  obtain s where fin: "Georef_Forward_fin la lo prec = Inr s"
    and len: "int (length s) = baselen_c + 2 * q"
    and s0: "s ! 0 = lontile_c ! k0" and s1: "s ! 1 = lattile_c ! k1"
    and s23: "0 \<le> q \<Longrightarrow> s ! 2 = degrees_c ! k2 \<and> s ! 3 = degrees_c ! k3"
    and digits: "0 < q \<Longrightarrow> \<forall>j<nat q.
                   s ! (4 + j) = digits_c ! digit_at (nat q) (minutes_of q lon2) j \<and>
                   s ! (4 + nat q + j) = digits_c ! digit_at (nat q) (minutes_of q lat2) j"
    unfolding q_def ilon_def ilat_def lon2_def lat2_def k0_def k1_def k2_def k3_def
    by blast
  from assms(1) have fwd: "Georef_Forward (Fin la) (Fin lo) prec = Inr s"
    by (simp add: Georef_Forward_def fin)
  from Georef_Forward_tile_indices(1,2) [OF assms(1), of lo]
    Georef_Forward_tile_indices(3,4) [OF assms(1)]
  have k0: "k0 < 24" "int k0 + lonorig_c = cdiv ilon tile_c"
    and k1: "k1 < 12" "int k1 + latorig_c = cdiv ilat tile_c"
    by (simp_all add: k0_def k1_def ilon_def ilat_def tables_length)
  from crem_tile_bounds [of ilon] crem_tile_bounds [of ilat] assms(2,3)
  have k2: "k2 < 15" "int k2 = crem ilon tile_c" and k3: "k3 < 15" "int k3 = crem ilat tile_c"
    by (simp_all add: k2_def k3_def ilon_def ilat_def tile_c_def)
  from lontile_not_I [OF k0(1)] s0 have inv: "\<not> is_INV s"
    by (simp add: is_INV_def)
  have lon: "AngNormalize lo = of_int ilon + lon2" and lat: "la = of_int ilat + lat2"
    by (simp_all add: lon2_def lat2_def)
  from lon_residue [of lo] have lon2: "0 \<le> lon2" "lon2 < 1"
    by (simp_all add: lon2_def ilon_def)
  from lat_residue [OF assms(1)] have lat2: "0 \<le> lat2" "lat2 \<le> 1"
    by (simp_all add: lat2_def ilat_def)
  have tile_lon: "of_int (int k0 + lonorig_c) * 15 + of_int (int k2) = (of_int ilon :: real)"
    and tile_lat: "of_int (int k1 + latorig_c) * 15 + of_int (int k3) = (of_int ilat :: real)"
    by (simp_all only: k0 k1 k2 k3 whole_split)
  have result: "\<exists>lat' lon'.
           Georef_Reverse s prec_in True = Inr (Fin lat', Fin lon', q) \<and>
           \<bar>lat' - la\<bar> \<le> cell_size q / 2 \<and> \<bar>lon' - AngNormalize lo\<bar> \<le> cell_size q / 2"
  proof (cases "q < 0")
    case True
    with q have qm: "q = -1" by simp
    from len have l: "int (length s) = baselen_c + 2 * (-1)" by (simp add: qm)
    from Georef_Reverse_center_value [OF inv Reverse_cells_tiles [OF l s0 k0(1) s1 k1(1)]]
    have rev: "Georef_Reverse s prec_in True =
           Inr (Fin (15 * (2 * of_int (int k1 + latorig_c) + 1) / (1 * 2)),
                Fin (15 * (2 * of_int (int k0 + lonorig_c) + 1) / (1 * 2)), q)"
      by (simp only: qm)
    have r2: "0 \<le> real k2" "real k2 \<le> 14" and r3: "0 \<le> real k3" "real k3 \<le> 14"
      using k2(1) k3(1) by simp_all
    from tile_lon have elon: "of_int ilon = of_int (int k0 + lonorig_c) * 15 + real k2" by simp
    from tile_lat have elat: "of_int ilat = of_int (int k1 + latorig_c) * 15 + real k3" by simp
    have c: "cell_size q / 2 = 15 / 2" by (simp add: qm cell_size_def)
    have v: "15 * (2 * t + 1) / (1 * 2) = 15 * t + 15 / 2" for t :: real by simp
    have "\<bar>15 * (2 * of_int (int k1 + latorig_c) + 1) / (1 * 2) - la\<bar> \<le> cell_size q / 2"
      unfolding lat elat c v using r3 lat2 by linarith
    moreover
    have "\<bar>15 * (2 * of_int (int k0 + lonorig_c) + 1) / (1 * 2) - AngNormalize lo\<bar>
            \<le> cell_size q / 2"
      unfolding lon elon c v using r2 lon2 by linarith
    ultimately show ?thesis using rev by blast
  next
    case False
    with q have q0: "0 \<le> q" by simp
    note s2 = s23 [OF q0, THEN conjunct1] and s3 = s23 [OF q0, THEN conjunct2]
    show ?thesis
    proof (cases "q = 0")
      case True
      from len have l: "int (length s) = baselen_c + 2 * 0" by (simp add: True)
      from Georef_Reverse_center_value
        [OF inv Reverse_cells_degrees [OF l s0 k0(1) s1 k1(1) s2 k2(1) s3 k3(1)]]
      have rev: "Georef_Reverse s prec_in True =
           Inr (Fin (15 * (2 * of_int ilat + 1) / (15 * 2)),
                Fin (15 * (2 * of_int ilon + 1) / (15 * 2)), q)"
        by (simp only: True tile_lon tile_lat)
      have c: "cell_size q / 2 = 1 / 2" by (simp add: True cell_size_def)
      have v: "15 * (2 * t + 1) / (15 * 2) = t + 1 / 2" for t :: real by simp
      have "\<bar>15 * (2 * of_int ilat + 1) / (15 * 2) - la\<bar> \<le> cell_size q / 2"
        unfolding lat c v using lat2 by linarith
      moreover
      have "\<bar>15 * (2 * of_int ilon + 1) / (15 * 2) - AngNormalize lo\<bar> \<le> cell_size q / 2"
        unfolding lon c v using lon2 by linarith
      ultimately show ?thesis using rev by blast
    next
      case False
      with q0 q have q2: "2 \<le> q" and qpos: "0 < q" by simp_all
      define B where "B = real (minute_cells (nat q))"
      define x where "x = minutes_of q lon2"
      define y where "y = minutes_of q lat2"
      have Bpos: "0 < B" by (simp add: B_def minute_cells_pos)
      from lon2 have lon2': "lon2 \<le> 1" by simp
      from minutes_of_bounds [OF q2 q(2) lon2(1) lon2']
      have x: "x < minute_cells (nat q)" and xb: "\<bar>(real x + 1 / 2) / B - lon2\<bar> \<le> 1 / (2 * B)"
        by (simp_all only: x_def B_def)
      from minutes_of_bounds [OF q2 q(2) lat2]
      have y: "y < minute_cells (nat q)" and yb: "\<bar>(real y + 1 / 2) / B - lat2\<bar> \<le> 1 / (2 * B)"
        by (simp_all only: y_def B_def)
      note d = digits [OF qpos, folded x_def y_def]
      from Georef_Reverse_center_value
        [OF inv Reverse_cells_minutes [OF len q2 s0 k0(1) s1 k1(1) s2 k2(1) s3 k3(1) d x y]]
      have rev: "Georef_Reverse s prec_in True =
           Inr (Fin (15 * (2 * (of_int ilat * B + real y) + 1) / (15 * B * 2)),
                Fin (15 * (2 * (of_int ilon * B + real x) + 1) / (15 * B * 2)), q)"
        by (simp only: tile_lon tile_lat B_def)
      from q2 have "nat (q - 1) = Suc (nat (q - 2))" "nat q - 1 = Suc (nat (q - 2))" "nat q \<noteq> 0"
        by simp_all
      then have cell: "cell_size q = 1 / B"
        using q2 by (simp add: cell_size_def B_def minute_cells_def)
      have flat: "15 * (2 * (of_int ilat * B + real y) + 1) / (15 * B * 2)
                    = of_int ilat + (real y + 1 / 2) / B"
        and flon: "15 * (2 * (of_int ilon * B + real x) + 1) / (15 * B * 2)
                    = of_int ilon + (real x + 1 / 2) / B"
        using Bpos by (simp_all add: field_simps)
      have half: "1 / B / 2 = 1 / (2 * B)" by simp
      have "\<bar>15 * (2 * (of_int ilat * B + real y) + 1) / (15 * B * 2) - la\<bar> \<le> cell_size q / 2"
        unfolding flat lat cell half using yb by linarith
      moreover
      have "\<bar>15 * (2 * (of_int ilon * B + real x) + 1) / (15 * B * 2) - AngNormalize lo\<bar>
              \<le> cell_size q / 2"
        unfolding flon lon cell half using xb by linarith
      ultimately show ?thesis using rev by blast
    qed
  qed
  with fwd show ?thesis unfolding q_def by blast
qed

text \<open>
  C1 at latitude -7.5, longitude -7.5, precision -1: the centre of the 15 degree tile
  between -15 and 0 on both axes, so a point away from every boundary. The claim has the
  decode of the encoded string within half a cell, 7.5 degrees, of the point.
  \<open>ilon = ilat = -8\<close>, and the truncating division \<open>-8 / 15\<close> is 0 where the tile is
  -1, so the letters name the tile from 0 to 15. The decode returns its centre, 7.5:
  15 degrees from the point. (\<open>Georef_round_trip\<close> above is the claim where no
  remainder is negative.)
\<close>

theorem Georef_round_trip_west_south:
  "Georef_Forward (Fin (-15 / 2)) (Fin (-15 / 2)) (-1) = Inr ''NG'' \<and>
   Georef_Reverse ''NG'' 0 True = Inr (Fin (15 / 2), Fin (15 / 2), -1) \<and>
   cell_size (-1) / 2 < \<bar>15 / 2 - (-15 / 2 :: real)\<bar>"
proof (intro conjI)
  show "Georef_Forward (Fin (-15 / 2)) (Fin (-15 / 2)) (-1) = Inr ''NG''"
    by (simp add: forward_eval)
  show "Georef_Reverse ''NG'' 0 True = Inr (Fin (15 / 2), Fin (15 / 2), -1)"
    by (simp add: reverse_run)
  show "cell_size (-1) / 2 < \<bar>15 / 2 - (-15 / 2 :: real)\<bar>"
    by (simp add: cell_size_def)
qed

section \<open>Gnomonic::Forward\<close>

text \<open>
  C5. The scale returned is the geodesic scale \<open>M\<close> of the engine's inverse computation
  and the azimuth its final azimuth. If \<open>M \<le> 0\<close> then \<open>x\<close> and \<open>y\<close> are NaN;
  otherwise, with \<open>rho = m / M\<close> and the initial azimuth \<open>azi0\<close> turned from degrees
  into radians, \<open>x = rho * sin azi0\<close> and \<open>y = rho * cos azi0\<close>.
\<close>

theorem Gnomonic_Forward_result:
  assumes "GenInverse (g_earth g) lat0 lon0 lat lon =
             \<lparr>inv_azi1 = azi0, inv_azi2 = azi, inv_m12 = m, inv_M12 = M\<rparr>"
  shows "(M \<le> 0 \<longrightarrow>
            Gnomonic_Forward g lat0 lon0 lat lon = (NaN, NaN, Fin azi, Fin M)) \<and>
         (\<not> M \<le> 0 \<longrightarrow>
            Gnomonic_Forward g lat0 lon0 lat lon =
              (Fin (m / M * sin (azi0 * (pi / 180))), Fin (m / M * cos (azi0 * (pi / 180))),
               Fin azi, Fin M))"
  using assms by (simp add: Gnomonic_Forward_def degree_def Let_def)

theorem Gnomonic_Forward_result_witness:
  "Gnomonic_Forward (engine_of beyond_inverse plane_position) 0 0 0 1 = (NaN, NaN, Fin 90, Fin (-1)) \<and>
   Gnomonic_Forward (engine_of east_inverse plane_position) 0 0 0 1 = (Fin 2, Fin 0, Fin 90, Fin 1)"
proof -
  have b: "GenInverse (g_earth (engine_of beyond_inverse plane_position)) 0 0 0 1 =
             \<lparr>inv_azi1 = 90, inv_azi2 = 90, inv_m12 = 2, inv_M12 = -1\<rparr>"
    by (simp add: engine_of_def beyond_inverse_def)
  have e: "GenInverse (g_earth (engine_of east_inverse plane_position)) 0 0 0 1 =
             \<lparr>inv_azi1 = 90, inv_azi2 = 90, inv_m12 = 2, inv_M12 = 1\<rparr>"
    by (simp add: engine_of_def east_inverse_def)
  have neg: "(-1::real) \<le> 0" and pos: "\<not> (1::real) \<le> 0" by simp_all
  from Gnomonic_Forward_result [OF b, THEN conjunct1, rule_format, OF neg]
  have 1: "Gnomonic_Forward (engine_of beyond_inverse plane_position) 0 0 0 1
             = (NaN, NaN, Fin 90, Fin (-1))" .
  from Gnomonic_Forward_result [OF e, THEN conjunct2, rule_format, OF pos]
  have 2: "Gnomonic_Forward (engine_of east_inverse plane_position) 0 0 0 1
             = (Fin 2, Fin 0, Fin 90, Fin 1)"
    by simp
  from 1 2 show ?thesis by (rule conjI)
qed

section \<open>Gnomonic::Reverse\<close>

subsection \<open>The loop\<close>





subsection \<open>The state the loop ends in\<close>

lemma arc_length_0: "arc_length g lat0 lon0 x y 0 = Fin (rev_s0 g x y)"
  by (simp add: arc_length_def)

lemma arc_length_Suc:
  "arc_length g lat0 lon0 x y (Suc k) =
     newton_next (rev_line g lat0 lon0 x y) (rev_little g x y) (rev_rho g x y)
       (arc_length g lat0 lon0 x y k)"
  by (simp add: arc_length_def)








subsection \<open>The engines, projected back from the origin of the plane\<close>

lemma eps_c_value: "eps_c = 1 / (100 * 2 ^ 26)"
proof -
  have "(1 / 2 ^ 52 :: real) = (1 / 2 ^ 26)\<^sup>2" by (simp add: power2_eq_square)
  then have "sqrt (1 / 2 ^ 52) = \<bar>1 / 2 ^ 26 :: real\<bar>"
    by (simp only: real_sqrt_abs)
  then show ?thesis
    by (simp add: eps_c_def eps0_c_def epsilon_def)
qed

lemma engine_at_origin:
  "rev_line (engine_of r pos) lat0 lon0 x y = pos"
  "rev_s0 (engine_of r pos) 0 0 = 0"
  "rev_little (engine_of r pos) 0 0"
  "rev_rho (engine_of r pos) 0 0 = 0"
  "g_a (engine_of r pos) = 1"
  by (simp_all add: rev_line_def rev_s0_def rev_little_def rev_rho_def engine_of_def hypot_def)

lemma gauge_ds:
  "newton_ds True 0 (gauge m M (Fin t)) =
     (if M t = 0 then NaN else Fin (m t * M t))"
  by (simp add: newton_ds_def gauge_def)
















text \<open>
  The stalling engine: the arc length goes down by 1 twice; the third correction
  divides by a zero scale and is NaN, and so is the arc length from there on.
\<close>

lemma stall_ds:
  "newton_ds True 0 (stall_position (Fin s)) = (if - 2 < s then Fin 1 else NaN)"
  by (simp add: stall_position_def gauge_ds)


lemma stall_arc_length:
  "k \<le> 2 \<Longrightarrow> arc_length (engine_of r stall_position) 0 0 0 0 k = Fin (- real k)"
proof (induction k)
  case 0
  show ?case by (simp add: arc_length_0 engine_at_origin)
next
  case (Suc k)
  then have "arc_length (engine_of r stall_position) 0 0 0 0 k = Fin (- real k)" and "real k < 2"
    by simp_all
  then show ?case
    by (simp add: arc_length_Suc engine_at_origin newton_next_def stall_ds)
qed

lemma stall_correction:
  "j \<le> 2 \<Longrightarrow> correction (engine_of r stall_position) 0 0 0 0 j
     = (if j < 2 then Fin 1 else NaN)"
  by (simp add: correction_def stall_arc_length engine_at_origin stall_ds)



lemma stall_nan_2: "step_nan (engine_of r stall_position) 0 0 0 0 2"
  by (simp add: step_nan_def stall_correction)

lemma stall_not_small: "j \<le> 2 \<Longrightarrow> \<not> step_small (engine_of r stall_position) 0 0 0 0 j"
  by (simp add: step_small_def stall_correction eps_c_value engine_at_origin)




end
